theory Spec2Isabelle
  imports Complex_Main "HOL-Library.Word" "HOL-Library.Multiset" "HOL-Library.Sublist"
begin

unbundle bit_operations_syntax

section \<open>Data structures\<close>

text \<open>
  \<^verbatim>\<open>unsigned char\<close> is an 8-bit word and \<^verbatim>\<open>uint64_t\<close> a 64-bit word, so the
  frequency counters and the node weights wrap around as they do in C.
\<close>

type_synonym byte = "8 word"
type_synonym u64 = "64 word"

text \<open>
  \<^verbatim>\<open>struct HuffmanNode { ch; freq; left; right }\<close>. \<^verbatim>\<open>create_node\<close> sets both children to
  NULL and \<^verbatim>\<open>build_huffman_tree\<close>, the only place that assigns children, assigns both at
  once, so a node either has no child (\<open>Leaf\<close>) or two (\<open>Internal\<close>, whose \<^verbatim>\<open>ch\<close> is 0).
  The test \<^verbatim>\<open>!node->left && !node->right\<close> of the source is the test for \<open>Leaf\<close>.
\<close>

datatype HuffmanNode =
    Leaf (ch: byte) (freq: u64)
  | Internal (freq: u64) (left: HuffmanNode) (right: HuffmanNode)

text \<open>
  Outcomes of the two operations that are not a success. The source returns 0 and prints
  a message; the constructor names the message:
  \<^item> \<open>EmptyInputError\<close>: "Input file is empty. Nothing to compress.";
  \<^item> \<open>TreeConstructionError\<close>: "Failed to build Huffman tree" (huffman2.c, compress),
    "Error rebuilding Huffman tree" (decompress);
  \<^item> \<open>NoCodeError\<close>: "no code for character";
  \<^item> \<open>TruncatedHeaderError\<close>: "cannot read original size from header", "cannot read
    frequency table from header";
  \<^item> \<open>UnexpectedEndOfStreamError\<close>: "Unexpected end of compressed file"; it carries the
    bytes already written to the output file;
  \<^item> \<open>NullDereference\<close>: the source would read a field through a NULL pointer.
  Failures of \<^verbatim>\<open>fopen\<close>, \<^verbatim>\<open>fwrite\<close> and \<^verbatim>\<open>malloc\<close> are outside the model: a file is its
  list of bytes.
\<close>

datatype error =
    EmptyInputError
  | TreeConstructionError
  | NoCodeError byte
  | TruncatedHeaderError
  | UnexpectedEndOfStreamError "byte list"
  | NullDereference

section \<open>Min-heap\<close>

text \<open>
  \<^verbatim>\<open>struct MinHeap\<close> is modelled by the list of its live slots \<^verbatim>\<open>data[0 .. size-1]\<close>, so
  \<^verbatim>\<open>size\<close> is the length of the list. The capacity is \<^verbatim>\<open>uniqueCount * 2 + 4\<close> and the heap
  never holds more than \<^verbatim>\<open>uniqueCount\<close> nodes, so the growing branch of \<^verbatim>\<open>heap_insert\<close>
  (which keeps the contents) is never taken.
\<close>

definition heap_swap :: "HuffmanNode list \<Rightarrow> nat \<Rightarrow> nat \<Rightarrow> HuffmanNode list" where
  "heap_swap d a b = d[a := d ! b, b := d ! a]"

function heapify_up :: "HuffmanNode list \<Rightarrow> nat \<Rightarrow> HuffmanNode list" where
  "heapify_up d idx =
     (if idx > 0 then
        (if freq (d ! ((idx - 1) div 2)) \<le> freq (d ! idx) then d
         else heapify_up (heap_swap d ((idx - 1) div 2) idx) ((idx - 1) div 2))
      else d)"
  by pat_completeness auto
termination
  by (relation "measure (\<lambda>(d, idx). idx)") auto

declare heapify_up.simps [simp del]

definition smallest_of :: "HuffmanNode list \<Rightarrow> nat \<Rightarrow> nat" where
  "smallest_of d idx =
     (let left = idx * 2 + 1;
          right = idx * 2 + 2;
          smallest = idx;
          smallest = (if left < length d \<and> freq (d ! left) < freq (d ! smallest)
                      then left else smallest);
          smallest = (if right < length d \<and> freq (d ! right) < freq (d ! smallest)
                      then right else smallest)
      in smallest)"

lemma smallest_of_cases:
  "smallest_of d idx = idx \<or> (idx < smallest_of d idx \<and> smallest_of d idx < length d)"
  by (auto simp: smallest_of_def Let_def)

lemma length_heap_swap [simp]: "length (heap_swap d a b) = length d"
  by (simp add: heap_swap_def)

function heapify_down :: "HuffmanNode list \<Rightarrow> nat \<Rightarrow> HuffmanNode list" where
  "heapify_down d idx =
     (if smallest_of d idx = idx then d
      else heapify_down (heap_swap d idx (smallest_of d idx)) (smallest_of d idx))"
  by pat_completeness auto
termination
proof (relation "measure (\<lambda>(d, idx). length d - idx)")
  show "wf (measure (\<lambda>(d, idx). length d - idx))" by simp
next
  fix d :: "HuffmanNode list" and idx :: nat
  assume "smallest_of d idx \<noteq> idx"
  with smallest_of_cases [of d idx]
  have "idx < smallest_of d idx" and "smallest_of d idx < length d" by auto
  then show "((heap_swap d idx (smallest_of d idx), smallest_of d idx), (d, idx))
               \<in> measure (\<lambda>(d, idx). length d - idx)"
    by simp
qed

declare heapify_down.simps [simp del]

text \<open>huffman.c: \<^verbatim>\<open>data[size] = node; heapify_up(h, size); size++\<close>.\<close>

definition heap_insert :: "HuffmanNode list \<Rightarrow> HuffmanNode \<Rightarrow> HuffmanNode list" where
  "heap_insert h node = heapify_up (h @ [node]) (length h)"

text \<open>
  \<^verbatim>\<open>heap_extract_min\<close>: NULL on the empty heap; otherwise the root, after
  \<^verbatim>\<open>data[0] = data[size - 1]; size--; heapify_down(h, 0)\<close>.
\<close>

definition heap_extract_min :: "HuffmanNode list \<Rightarrow> HuffmanNode option \<times> HuffmanNode list" where
  "heap_extract_min h =
     (if length h = 0 then (None, h)
      else (Some (h ! 0), heapify_down (take (length h - 1) (h[0 := h ! (length h - 1)])) 0))"

lemma length_heapify_up [simp]: "length (heapify_up d idx) = length d"
  by (induction d idx rule: heapify_up.induct) (subst heapify_up.simps, simp)

lemma length_heapify_down [simp]: "length (heapify_down d idx) = length d"
  by (induction d idx rule: heapify_down.induct) (subst heapify_down.simps, simp)

lemma length_heap_insert [simp]: "length (heap_insert h node) = Suc (length h)"
  by (simp add: heap_insert_def)

lemma length_heap_extract_min:
  "heap_extract_min h = (r, h') \<Longrightarrow> length h' = length h - 1"
  by (auto simp: heap_extract_min_def split: if_splits)

section \<open>Building the tree\<close>

text \<open>The first loop of \<^verbatim>\<open>build_huffman_tree\<close>: how many bytes have a nonzero frequency.\<close>

definition uniqueCount :: "u64 list \<Rightarrow> nat" where
  "uniqueCount frequencies =
     fold (\<lambda>i n. if frequencies ! i > 0 then n + 1 else n) [0..<256] 0"

text \<open>The second loop: one leaf per such byte, inserted in the order 0..255.\<close>

definition insert_leaves :: "u64 list \<Rightarrow> HuffmanNode list" where
  "insert_leaves frequencies =
     fold (\<lambda>i heap. if frequencies ! i > 0
                      then heap_insert heap (Leaf (of_nat i) (frequencies ! i)) else heap)
          [0..<256] []"

text \<open>
  The merging loop \<^verbatim>\<open>while (heap->size > 1)\<close>. \<^verbatim>\<open>left->freq + right->freq\<close> is a sum of
  \<^verbatim>\<open>uint64_t\<close> and wraps around. The result is \<open>None\<close> where the source would read
  \<^verbatim>\<open>left->freq\<close> or \<^verbatim>\<open>right->freq\<close> through the NULL that \<^verbatim>\<open>heap_extract_min\<close> returns on an
  empty heap.
\<close>

function merge_loop :: "HuffmanNode list \<Rightarrow> HuffmanNode list option" where
  "merge_loop heap =
     (if length heap > 1 then
        (case heap_extract_min heap of
           (None, heap1) \<Rightarrow> None
         | (Some l, heap1) \<Rightarrow>
             (case heap_extract_min heap1 of
                (None, heap2) \<Rightarrow> None
              | (Some r, heap2) \<Rightarrow>
                  merge_loop (heap_insert heap2 (Internal (freq l + freq r) l r))))
      else Some heap)"
  by pat_completeness auto
termination
proof (relation "measure length")
  show "wf (measure (length :: HuffmanNode list \<Rightarrow> nat))" by simp
next
  fix heap heap1 heap2 :: "HuffmanNode list" and x y and l r :: HuffmanNode
    and p q :: "HuffmanNode option"
  assume "1 < length heap" and "(p, heap1) = heap_extract_min heap"
    and "(q, heap2) = heap_extract_min heap1"
  then have "length heap2 = length heap - 1 - 1"
    using length_heap_extract_min [of heap p heap1] length_heap_extract_min [of heap1 q heap2]
    by simp
  with \<open>1 < length heap\<close>
  show "(heap_insert heap2 (Internal (freq l + freq r) l r), heap) \<in> measure length"
    by simp
qed

declare merge_loop.simps [simp del]

text \<open>\<^verbatim>\<open>build_huffman_tree\<close>: \<open>Inr None\<close> is the NULL the source returns for an all-zero table.\<close>

definition build_huffman_tree :: "u64 list \<Rightarrow> error + HuffmanNode option" where
  "build_huffman_tree frequencies =
     (if uniqueCount frequencies = 0 then Inr None
      else
        let heap = insert_leaves frequencies in
        if length heap = 1 then Inr (fst (heap_extract_min heap))
        else (case merge_loop heap of
                None \<Rightarrow> Inl NullDereference
              | Some heap' \<Rightarrow> Inr (fst (heap_extract_min heap'))))"

section \<open>Code generation\<close>

text \<open>
  \<^verbatim>\<open>Code codes[256]\<close>: a code is a string of the characters 0 and 1, or NULL. The
  \<^verbatim>\<open>buffer\<close> argument is \<^verbatim>\<open>buffer[0 .. depth-1]\<close>, so \<^verbatim>\<open>depth\<close> is its length. The array
  of the source has 512 characters; the paths of a built tree are shorter than 256
  (\<open>code_length_bound\<close> below), so the bound is not part of the model.
\<close>

fun generate_codes_recursive ::
  "HuffmanNode \<Rightarrow> string \<Rightarrow> string option list \<Rightarrow> string option list" where
  "generate_codes_recursive (Leaf c f) buffer codes = codes[unat c := Some buffer]"
| "generate_codes_recursive (Internal f l r) buffer codes =
     generate_codes_recursive r (buffer @ ''1'')
       (generate_codes_recursive l (buffer @ ''0'') codes)"

definition generate_codes :: "HuffmanNode option \<Rightarrow> string option list" where
  "generate_codes tree_root =
     (let codes = replicate 256 None in
      case tree_root of
        None \<Rightarrow> codes
      | Some (Leaf c f) \<Rightarrow> codes[unat c := Some ''0'']
      | Some (Internal f l r) \<Rightarrow> generate_codes_recursive (Internal f l r) [] codes)"

section \<open>Bit writer and bit reader\<close>

text \<open>
  \<^verbatim>\<open>struct BitWriter { fp; buffer; bit_count }\<close>: \<open>bw_fp\<close> is the content of the output
  file so far. \<^verbatim>\<open>bit_count\<close> stays within 0..8, so it is a natural number.
\<close>

record BitWriter =
  bw_fp :: "byte list"
  bw_buffer :: byte
  bw_bit_count :: nat

definition bitwriter_create :: "byte list \<Rightarrow> BitWriter" where
  "bitwriter_create fp = \<lparr>bw_fp = fp, bw_buffer = 0, bw_bit_count = 0\<rparr>"

text \<open>
  \<^verbatim>\<open>buffer |= ((bit & 1) << (7 - bit_count))\<close>: the shift is computed on \<^verbatim>\<open>int\<close> and the
  result is stored back into the \<^verbatim>\<open>unsigned char\<close>.
\<close>

definition bitwriter_write_bit :: "BitWriter \<Rightarrow> int \<Rightarrow> BitWriter" where
  "bitwriter_write_bit bw bitv =
     (let buffer = bw_buffer bw OR word_of_int (push_bit (7 - bw_bit_count bw) (bitv AND 1));
          bit_count = bw_bit_count bw + 1
      in if bit_count = 8
         then \<lparr>bw_fp = bw_fp bw @ [buffer], bw_buffer = 0, bw_bit_count = 0\<rparr>
         else \<lparr>bw_fp = bw_fp bw, bw_buffer = buffer, bw_bit_count = bit_count\<rparr>)"

text \<open>huffman.c: \<^verbatim>\<open>bitwriter_write_bit(bw, (*p == '1') ? 1 : 0)\<close> for each character.\<close>

definition bitwriter_write_bits_from_string :: "BitWriter \<Rightarrow> string \<Rightarrow> BitWriter" where
  "bitwriter_write_bits_from_string bw bits =
     fold (\<lambda>p bw. bitwriter_write_bit bw (if p = CHR ''1'' then 1 else 0)) bits bw"

text \<open>\<^verbatim>\<open>bitwriter_flush\<close> ends the writer; the result is the content of the file.\<close>

definition bitwriter_flush :: "BitWriter \<Rightarrow> byte list" where
  "bitwriter_flush bw =
     (if bw_bit_count bw > 0 then bw_fp bw @ [bw_buffer bw] else bw_fp bw)"

text \<open>\<^verbatim>\<open>struct BitReader\<close>: \<open>br_fp\<close> is the part of the input file not read yet.\<close>

record BitReader =
  br_fp :: "byte list"
  br_buffer :: byte
  br_bit_count :: nat

definition bitreader_create :: "byte list \<Rightarrow> BitReader" where
  "bitreader_create fp = \<lparr>br_fp = fp, br_buffer = 0, br_bit_count = 0\<rparr>"

text \<open>
  \<^verbatim>\<open>bitreader_read_bit\<close>: \<open>None\<close> is the return value 0 (end of file). Otherwise
  \<^verbatim>\<open>pos = bit_count - 1; bit = (buffer >> (7 - pos)) & 1; bit_count--\<close>.
\<close>

definition bitreader_fill :: "BitReader \<Rightarrow> BitReader option" where
  "bitreader_fill br =
     (if br_bit_count br = 0 then
        (case br_fp br of
           [] \<Rightarrow> None
         | b # rest \<Rightarrow> Some \<lparr>br_fp = rest, br_buffer = b, br_bit_count = 8\<rparr>)
      else Some br)"

definition bitreader_read_bit :: "BitReader \<Rightarrow> (int \<times> BitReader) option" where
  "bitreader_read_bit br =
     (case bitreader_fill br of
        None \<Rightarrow> None
      | Some br1 \<Rightarrow>
          (let pos = br_bit_count br1 - 1;
               bitv = drop_bit (7 - pos) (uint (br_buffer br1)) AND 1
           in Some (bitv, br1\<lparr>br_bit_count := br_bit_count br1 - 1\<rparr>)))"

section \<open>The header\<close>

text \<open>
  \<^verbatim>\<open>fwrite(&total_chars, sizeof(uint64_t), 1, out)\<close> writes the eight bytes of the counter
  in host byte order; the model takes a little-endian host. \<^verbatim>\<open>fread\<close> of one counter
  fails when fewer than eight bytes are left.
\<close>

definition u64_bytes :: "u64 \<Rightarrow> byte list" where
  "u64_bytes w = map (\<lambda>i. ucast (drop_bit (8 * i) w)) [0..<8]"

definition u64_of_bytes :: "byte list \<Rightarrow> u64" where
  "u64_of_bytes bs = foldr (\<lambda>b acc. ucast b OR push_bit 8 acc) bs 0"

definition write_u64_array :: "u64 list \<Rightarrow> byte list" where
  "write_u64_array ws = concat (map u64_bytes ws)"

definition read_u64 :: "byte list \<Rightarrow> (u64 \<times> byte list) option" where
  "read_u64 fp = (if length fp < 8 then None else Some (u64_of_bytes (take 8 fp), drop 8 fp))"

text \<open>\<^verbatim>\<open>fread(frequencies, sizeof(uint64_t), 256, in) != 256\<close> fails on a short read.\<close>

definition read_u64_array :: "nat \<Rightarrow> byte list \<Rightarrow> (u64 list \<times> byte list) option" where
  "read_u64_array n fp =
     (if length fp < 8 * n then None
      else Some (map (\<lambda>i. u64_of_bytes (take 8 (drop (8 * i) fp))) [0..<n], drop (8 * n) fp))"

section \<open>compress_file (huffman.c)\<close>

text \<open>
  The input file is the list of its bytes. First pass: \<^verbatim>\<open>frequencies[(unsigned char)c]++;
  total_chars++\<close> for each byte; both counters are \<^verbatim>\<open>uint64_t\<close>.
\<close>

definition count_frequencies :: "byte list \<Rightarrow> u64 list \<times> u64" where
  "count_frequencies inp =
     fold (\<lambda>c (frequencies, total_chars).
             (frequencies[unat c := frequencies ! unat c + 1], total_chars + 1))
          inp (replicate 256 0, 0)"

text \<open>Second pass: the code of each byte goes to the bit writer; a NULL code stops it.\<close>

fun encode_loop :: "string option list \<Rightarrow> byte list \<Rightarrow> BitWriter \<Rightarrow> error + BitWriter" where
  "encode_loop codes [] bw = Inr bw"
| "encode_loop codes (uc # rest) bw =
     (case codes ! unat uc of
        None \<Rightarrow> Inl (NoCodeError uc)
      | Some bits \<Rightarrow> encode_loop codes rest (bitwriter_write_bits_from_string bw bits))"

text \<open>The result is the content of the output file: header, then the packed bits.\<close>

definition compress_file :: "byte list \<Rightarrow> error + byte list" where
  "compress_file inp =
     (case count_frequencies inp of (frequencies, total_chars) \<Rightarrow>
        (case build_huffman_tree frequencies of
           Inl e \<Rightarrow> Inl e
         | Inr None \<Rightarrow> Inl EmptyInputError
         | Inr (Some r) \<Rightarrow>
             (let codes = generate_codes (Some r);
                  out = u64_bytes total_chars @ write_u64_array frequencies
              in case encode_loop codes inp (bitwriter_create out) of
                   Inl e \<Rightarrow> Inl e
                 | Inr bw \<Rightarrow> Inr (bitwriter_flush bw))))"

section \<open>decompress_file (huffman.c)\<close>

text \<open>The scan for the single-symbol case: \<^verbatim>\<open>uniqueCount\<close> (here \<open>unique\<close>) and \<^verbatim>\<open>onlyChar\<close>.\<close>

definition scan_only_char :: "u64 list \<Rightarrow> nat \<times> byte" where
  "scan_only_char frequencies =
     fold (\<lambda>i (unique, onlyChar).
             if frequencies ! i > 0 then (unique + 1, of_nat i) else (unique, onlyChar))
          [0..<256] (0, 0)"

definition bits_left :: "BitReader \<Rightarrow> nat" where
  "bits_left br = 8 * length (br_fp br) + br_bit_count br"

lemma bitreader_read_bit_less:
  "bitreader_read_bit br = Some (b, br') \<Longrightarrow> bits_left br' < bits_left br"
  by (auto simp: bitreader_read_bit_def bitreader_fill_def bits_left_def Let_def
           split: if_splits list.splits)

text \<open>
  The decoding loop \<^verbatim>\<open>while (written < total_chars)\<close>. It returns \<^verbatim>\<open>written\<close> and the bytes
  put to the output file, also when it stops at the end of the input (\<^verbatim>\<open>break\<close>). When
  \<^verbatim>\<open>node\<close> is NULL or a leaf at the head of the body, \<^verbatim>\<open>node->left\<close> or the test
  \<^verbatim>\<open>!node->left\<close> after the step reads through NULL.
\<close>

function decode_loop ::
  "HuffmanNode option \<Rightarrow> u64 \<Rightarrow> BitReader \<Rightarrow> HuffmanNode option \<Rightarrow> u64 \<Rightarrow> byte list
     \<Rightarrow> error + (u64 \<times> byte list)" where
  "decode_loop tree_root total_chars br node written out =
     (if written < total_chars then
        (case bitreader_read_bit br of
           None \<Rightarrow> Inr (written, out)
         | Some (bitv, br') \<Rightarrow>
             (case node of
                None \<Rightarrow> Inl NullDereference
              | Some (Leaf c f) \<Rightarrow> Inl NullDereference
              | Some (Internal f l r) \<Rightarrow>
                  (case (if bitv = 0 then l else r) of
                     Leaf c f' \<Rightarrow>
                       decode_loop tree_root total_chars br' tree_root (written + 1) (out @ [c])
                   | Internal f' l' r' \<Rightarrow>
                       decode_loop tree_root total_chars br' (Some (Internal f' l' r'))
                         written out)))
      else Inr (written, out))"
  by pat_completeness auto
termination
  by (relation "measure (\<lambda>(tree_root, total_chars, br, node, written, out). bits_left br)")
     (auto simp: bitreader_read_bit_less)

declare decode_loop.simps [simp del]

definition decompress_file :: "byte list \<Rightarrow> error + byte list" where
  "decompress_file inp =
     (case read_u64 inp of
        None \<Rightarrow> Inl TruncatedHeaderError
      | Some (total_chars, inp1) \<Rightarrow>
          (case read_u64_array 256 inp1 of
             None \<Rightarrow> Inl TruncatedHeaderError
           | Some (frequencies, inp2) \<Rightarrow>
               (case build_huffman_tree frequencies of
                  Inl e \<Rightarrow> Inl e
                | Inr tree_root \<Rightarrow>
                    if tree_root = None \<and> total_chars > 0 then Inl TreeConstructionError
                    else
                      (case scan_only_char frequencies of (unique, onlyChar) \<Rightarrow>
                         if unique = 1 then Inr (replicate (unat total_chars) onlyChar)
                         else
                           (case decode_loop tree_root total_chars (bitreader_create inp2)
                                   tree_root 0 [] of
                              Inl e \<Rightarrow> Inl e
                            | Inr (written, out) \<Rightarrow>
                                if written = total_chars then Inr out
                                else Inl (UnexpectedEndOfStreamError out))))))"

section \<open>The second source file (huffman2.c)\<close>

text \<open>
  huffman2.c has its own copy of every function. \<^verbatim>\<open>heap_swap\<close>, \<^verbatim>\<open>heapify_up\<close>,
  \<^verbatim>\<open>generate_codes_recursive\<close>, \<^verbatim>\<open>bitwriter_create\<close>, \<^verbatim>\<open>bitwriter_write_bit\<close>,
  \<^verbatim>\<open>bitwriter_flush\<close>, \<^verbatim>\<open>bitreader_create\<close>, \<^verbatim>\<open>bitreader_read_bit\<close>, the counting loop and
  the single-symbol scan are the same statements as in huffman.c (up to the names of local
  variables and the allocation wrappers \<^verbatim>\<open>xmalloc\<close> and \<^verbatim>\<open>xstrdup\<close>) and share the
  definitions above. The functions below are written differently there, and are modelled
  on their own with the suffix 2.
\<close>

text \<open>\<^verbatim>\<open>heapify_down\<close> of huffman2.c computes \<^verbatim>\<open>2*idx + 1\<close> and \<^verbatim>\<open>2*idx + 2\<close>.\<close>

definition smallest_of2 :: "HuffmanNode list \<Rightarrow> nat \<Rightarrow> nat" where
  "smallest_of2 d idx =
     (let left = 2 * idx + 1;
          right = 2 * idx + 2;
          smallest = idx;
          smallest = (if left < length d \<and> freq (d ! left) < freq (d ! smallest)
                      then left else smallest);
          smallest = (if right < length d \<and> freq (d ! right) < freq (d ! smallest)
                      then right else smallest)
      in smallest)"

lemma smallest_of2_cases:
  "smallest_of2 d idx = idx \<or> (idx < smallest_of2 d idx \<and> smallest_of2 d idx < length d)"
  by (auto simp: smallest_of2_def Let_def)

function heapify_down2 :: "HuffmanNode list \<Rightarrow> nat \<Rightarrow> HuffmanNode list" where
  "heapify_down2 d idx =
     (if smallest_of2 d idx = idx then d
      else heapify_down2 (heap_swap d idx (smallest_of2 d idx)) (smallest_of2 d idx))"
  by pat_completeness auto
termination
proof (relation "measure (\<lambda>(d, idx). length d - idx)")
  show "wf (measure (\<lambda>(d, idx). length d - idx))" by simp
next
  fix d :: "HuffmanNode list" and idx :: nat
  assume "smallest_of2 d idx \<noteq> idx"
  with smallest_of2_cases [of d idx]
  have "idx < smallest_of2 d idx" and "smallest_of2 d idx < length d" by auto
  then show "((heap_swap d idx (smallest_of2 d idx), smallest_of2 d idx), (d, idx))
               \<in> measure (\<lambda>(d, idx). length d - idx)"
    by simp
qed

declare heapify_down2.simps [simp del]

text \<open>huffman2.c: \<^verbatim>\<open>data[size++] = node; heapify_up(h, size - 1)\<close>.\<close>

definition heap_insert2 :: "HuffmanNode list \<Rightarrow> HuffmanNode \<Rightarrow> HuffmanNode list" where
  "heap_insert2 h node = (let d = h @ [node] in heapify_up d (length d - 1))"

text \<open>huffman2.c: \<^verbatim>\<open>min = data[0]; data[0] = data[--size]; heapify_down(h, 0)\<close>.\<close>

definition heap_extract_min2 :: "HuffmanNode list \<Rightarrow> HuffmanNode option \<times> HuffmanNode list" where
  "heap_extract_min2 h =
     (if length h = 0 then (None, h)
      else (let n = length h - 1 in (Some (h ! 0), heapify_down2 (take n (h[0 := h ! n])) 0)))"

lemma length_heapify_down2 [simp]: "length (heapify_down2 d idx) = length d"
  by (induction d idx rule: heapify_down2.induct) (subst heapify_down2.simps, simp)

lemma length_heap_insert2 [simp]: "length (heap_insert2 h node) = Suc (length h)"
  by (simp add: heap_insert2_def)

lemma length_heap_extract_min2:
  "heap_extract_min2 h = (r, h') \<Longrightarrow> length h' = length h - 1"
  by (auto simp: heap_extract_min2_def Let_def split: if_splits)

definition insert_leaves2 :: "u64 list \<Rightarrow> HuffmanNode list" where
  "insert_leaves2 frequencies =
     fold (\<lambda>i heap. if frequencies ! i > 0
                      then heap_insert2 heap (Leaf (of_nat i) (frequencies ! i)) else heap)
          [0..<256] []"

function merge_loop2 :: "HuffmanNode list \<Rightarrow> HuffmanNode list option" where
  "merge_loop2 heap =
     (if length heap > 1 then
        (case heap_extract_min2 heap of
           (None, heap1) \<Rightarrow> None
         | (Some a, heap1) \<Rightarrow>
             (case heap_extract_min2 heap1 of
                (None, heap2) \<Rightarrow> None
              | (Some b, heap2) \<Rightarrow>
                  merge_loop2 (heap_insert2 heap2 (Internal (freq a + freq b) a b))))
      else Some heap)"
  by pat_completeness auto
termination
proof (relation "measure length")
  show "wf (measure (length :: HuffmanNode list \<Rightarrow> nat))" by simp
next
  fix heap heap1 heap2 :: "HuffmanNode list" and a b :: HuffmanNode
    and p q :: "HuffmanNode option"
  assume "1 < length heap" and "(p, heap1) = heap_extract_min2 heap"
    and "(q, heap2) = heap_extract_min2 heap1"
  then have "length heap2 = length heap - 1 - 1"
    using length_heap_extract_min2 [of heap p heap1] length_heap_extract_min2 [of heap1 q heap2]
    by simp
  with \<open>1 < length heap\<close>
  show "(heap_insert2 heap2 (Internal (freq a + freq b) a b), heap) \<in> measure length"
    by simp
qed

declare merge_loop2.simps [simp del]

definition build_huffman_tree2 :: "u64 list \<Rightarrow> error + HuffmanNode option" where
  "build_huffman_tree2 frequencies =
     (if uniqueCount frequencies = 0 then Inr None
      else
        let heap = insert_leaves2 frequencies in
        if length heap = 1 then Inr (fst (heap_extract_min2 heap))
        else (case merge_loop2 heap of
                None \<Rightarrow> Inl NullDereference
              | Some heap' \<Rightarrow> Inr (fst (heap_extract_min2 heap'))))"

text \<open>huffman2.c: a single node gets \<^verbatim>\<open>xstrdup("0")\<close>.\<close>

definition generate_codes2 :: "HuffmanNode option \<Rightarrow> string option list" where
  "generate_codes2 tree_root =
     (let codes = replicate 256 None in
      case tree_root of
        None \<Rightarrow> codes
      | Some (Leaf c f) \<Rightarrow> codes[unat c := Some ''0'']
      | Some (Internal f l r) \<Rightarrow> generate_codes_recursive (Internal f l r) [] codes)"

text \<open>huffman2.c: \<^verbatim>\<open>bitwriter_write_bit(bw, (*p == '1'))\<close>.\<close>

definition bitwriter_write_bits_from_string2 :: "BitWriter \<Rightarrow> string \<Rightarrow> BitWriter" where
  "bitwriter_write_bits_from_string2 bw s =
     fold (\<lambda>p bw. bitwriter_write_bit bw (of_bool (p = CHR ''1''))) s bw"

fun encode_loop2 :: "string option list \<Rightarrow> byte list \<Rightarrow> BitWriter \<Rightarrow> error + BitWriter" where
  "encode_loop2 codes [] bw = Inr bw"
| "encode_loop2 codes (uc # rest) bw =
     (case codes ! unat uc of
        None \<Rightarrow> Inl (NoCodeError uc)
      | Some bits \<Rightarrow> encode_loop2 codes rest (bitwriter_write_bits_from_string2 bw bits))"

text \<open>
  \<^verbatim>\<open>compress_file\<close> of huffman2.c tests \<^verbatim>\<open>total == 0\<close> before it builds the tree, and
  reports a NULL tree as "Failed to build Huffman tree".
\<close>

definition compress_file2 :: "byte list \<Rightarrow> error + byte list" where
  "compress_file2 inp =
     (case count_frequencies inp of (frequencies, total_n) \<Rightarrow>
        if total_n = 0 then Inl EmptyInputError
        else
          (case build_huffman_tree2 frequencies of
             Inl e \<Rightarrow> Inl e
           | Inr None \<Rightarrow> Inl TreeConstructionError
           | Inr (Some r) \<Rightarrow>
               (let codes = generate_codes2 (Some r);
                    out = u64_bytes total_n @ write_u64_array frequencies
                in case encode_loop2 codes inp (bitwriter_create out) of
                     Inl e \<Rightarrow> Inl e
                   | Inr bw \<Rightarrow> Inr (bitwriter_flush bw))))"

function decode_loop2 ::
  "HuffmanNode option \<Rightarrow> u64 \<Rightarrow> BitReader \<Rightarrow> HuffmanNode option \<Rightarrow> u64 \<Rightarrow> byte list
     \<Rightarrow> error + (u64 \<times> byte list)" where
  "decode_loop2 tree_root total_n br cur written out =
     (if written < total_n then
        (case bitreader_read_bit br of
           None \<Rightarrow> Inr (written, out)
         | Some (bitv, br') \<Rightarrow>
             (case cur of
                None \<Rightarrow> Inl NullDereference
              | Some (Leaf c f) \<Rightarrow> Inl NullDereference
              | Some (Internal f l r) \<Rightarrow>
                  (case (if bitv = 0 then l else r) of
                     Leaf c f' \<Rightarrow>
                       decode_loop2 tree_root total_n br' tree_root (written + 1) (out @ [c])
                   | Internal f' l' r' \<Rightarrow>
                       decode_loop2 tree_root total_n br' (Some (Internal f' l' r')) written out)))
      else Inr (written, out))"
  by pat_completeness auto
termination
  by (relation "measure (\<lambda>(tree_root, total_n, br, cur, written, out). bits_left br)")
     (auto simp: bitreader_read_bit_less)

declare decode_loop2.simps [simp del]

definition decompress_file2 :: "byte list \<Rightarrow> error + byte list" where
  "decompress_file2 inp =
     (case read_u64 inp of
        None \<Rightarrow> Inl TruncatedHeaderError
      | Some (total_n, inp1) \<Rightarrow>
          (case read_u64_array 256 inp1 of
             None \<Rightarrow> Inl TruncatedHeaderError
           | Some (frequencies, inp2) \<Rightarrow>
               (case build_huffman_tree2 frequencies of
                  Inl e \<Rightarrow> Inl e
                | Inr tree_root \<Rightarrow>
                    if tree_root = None \<and> total_n > 0 then Inl TreeConstructionError
                    else
                      (case scan_only_char frequencies of (unique, onlyChar) \<Rightarrow>
                         if unique = 1 then Inr (replicate (unat total_n) onlyChar)
                         else
                           (case decode_loop2 tree_root total_n (bitreader_create inp2)
                                   tree_root 0 [] of
                              Inl e \<Rightarrow> Inl e
                            | Inr (written, out) \<Rightarrow>
                                if written = total_n then Inr out
                                else Inl (UnexpectedEndOfStreamError out))))))"

section \<open>Notions used in the statements\<close>

text \<open>The indices 0..255 of the nonzero entries of a frequency table, in ascending order.\<close>

definition nonzero_indices :: "u64 list \<Rightarrow> nat list" where
  "nonzero_indices frequencies = filter (\<lambda>i. frequencies ! i > 0) [0..<256]"

text \<open>
  The leaves of a tree from left to right, each with the path from the root to it: the
  character 0 for a step to the left child, 1 for a step to the right child.
\<close>

fun leaf_codes :: "HuffmanNode \<Rightarrow> (byte \<times> string) list" where
  "leaf_codes (Leaf c f) = [(c, [])]"
| "leaf_codes (Internal f l r) =
     map (\<lambda>(c, p). (c, CHR ''0'' # p)) (leaf_codes l)
     @ map (\<lambda>(c, p). (c, CHR ''1'' # p)) (leaf_codes r)"

definition leaf_chars :: "HuffmanNode \<Rightarrow> byte list" where
  "leaf_chars t = map fst (leaf_codes t)"

text \<open>The bytes at the leaves of the trees of a heap, as a multiset.\<close>

definition forest_chars :: "HuffmanNode multiset \<Rightarrow> byte multiset" where
  "forest_chars F = sum_mset (image_mset (\<lambda>t. mset (leaf_chars t)) F)"

text \<open>The fields of a blob of at least 2056 bytes, as \<^verbatim>\<open>decompress_file\<close> reads them.\<close>

definition header_total :: "byte list \<Rightarrow> u64" where
  "header_total blob = u64_of_bytes (take 8 blob)"

definition header_frequencies :: "byte list \<Rightarrow> u64 list" where
  "header_frequencies blob =
     map (\<lambda>i. u64_of_bytes (take 8 (drop (8 * i) (drop 8 blob)))) [0..<256]"

text \<open>The term of a code in Kraft's sum: \<open>2 ^ - length\<close>, and 0 for a byte without a code.\<close>

definition code_weight :: "string option \<Rightarrow> real" where
  "code_weight code = (case code of None \<Rightarrow> 0 | Some p \<Rightarrow> 1 / 2 ^ length p)"

text \<open>
  The bits of a stream: what repeated calls of \<^verbatim>\<open>bitreader_read_bit\<close> yield until it reports
  the end of the file.
\<close>

function read_all :: "BitReader \<Rightarrow> int list" where
  "read_all br =
     (case bitreader_read_bit br of
        None \<Rightarrow> []
      | Some (bitv, br') \<Rightarrow> bitv # read_all br')"
  by pat_completeness auto
termination
  by (relation "measure bits_left") (auto simp: bitreader_read_bit_less)

declare read_all.simps [simp del]

text \<open>
  The symbols that a sequence of bits holds for a tree: start at the root, go left on 0
  and right on 1, emit the byte at a leaf and restart at the root. Bits after the last
  complete symbol, a symbol cut short, give nothing. The second argument is the current
  node.
\<close>

fun decoded_symbols :: "HuffmanNode \<Rightarrow> HuffmanNode \<Rightarrow> int list \<Rightarrow> byte list" where
  "decoded_symbols tree_root node [] = []"
| "decoded_symbols tree_root (Leaf c f) (bitv # bits) = []"
| "decoded_symbols tree_root (Internal f l r) (bitv # bits) =
     (case (if bitv = 0 then l else r) of
        Leaf c f' \<Rightarrow> c # decoded_symbols tree_root tree_root bits
      | Internal f' l' r' \<Rightarrow> decoded_symbols tree_root (Internal f' l' r') bits)"

section \<open>Facts about the model\<close>

subsection \<open>The scans over the frequency table\<close>

lemma fold_if_filter:
  "fold (\<lambda>i a. if P i then g i a else a) xs a0 = fold g (filter P xs) a0"
  by (induction xs arbitrary: a0) auto

lemma fold_count_length: "fold (\<lambda>i. Suc) xs k = k + length xs"
  by (induction xs arbitrary: k) auto

lemma uniqueCount_eq: "uniqueCount frequencies = length (nonzero_indices frequencies)"
  by (simp add: uniqueCount_def nonzero_indices_def fold_if_filter fold_count_length)

lemma insert_leaves_eq:
  "insert_leaves frequencies =
     fold (\<lambda>i heap. heap_insert heap (Leaf (of_nat i) (frequencies ! i)))
       (nonzero_indices frequencies) []"
  by (simp add: insert_leaves_def nonzero_indices_def fold_if_filter)

lemma length_fold_heap_insert:
  "length (fold (\<lambda>i heap. heap_insert heap (g i)) xs h) = length h + length xs"
  by (induction xs arbitrary: h) auto

lemma length_insert_leaves: "length (insert_leaves frequencies) = uniqueCount frequencies"
  by (simp add: insert_leaves_eq uniqueCount_eq length_fold_heap_insert)

lemma fold_scan_pair:
  "fold (\<lambda>i (n, c). (Suc n, g i)) xs (k, c0) =
     (k + length xs, if xs = [] then c0 else g (last xs))"
  by (induction xs arbitrary: k c0) auto

lemma scan_only_char_eq:
  "scan_only_char frequencies =
     (length (nonzero_indices frequencies),
      if nonzero_indices frequencies = [] then 0 else of_nat (last (nonzero_indices frequencies)))"
proof -
  have "(\<lambda>i (unique :: nat, onlyChar :: byte).
           if frequencies ! i > 0 then (unique + 1, of_nat i) else (unique, onlyChar))
        = (\<lambda>i a. if frequencies ! i > 0 then (case a of (n, c) \<Rightarrow> (n + 1, of_nat i)) else a)"
    by (auto simp: fun_eq_iff)
  then show ?thesis
    unfolding scan_only_char_def nonzero_indices_def
    by (simp add: fold_if_filter fold_scan_pair)
qed

lemma nonzero_indices_zero: "nonzero_indices (replicate 256 0) = []"
  by (auto simp: nonzero_indices_def filter_empty_conv)

lemma count_frequencies_Nil: "count_frequencies [] = (replicate 256 0, 0)"
  by (simp add: count_frequencies_def)

lemma build_zero: "build_huffman_tree (replicate 256 0) = Inr None"
  by (simp add: build_huffman_tree_def uniqueCount_eq nonzero_indices_zero)

lemma compress_file_Nil: "compress_file [] = Inl EmptyInputError"
  by (simp add: compress_file_def count_frequencies_Nil build_zero)

subsection \<open>Writing and reading the header\<close>

lemma length_u64_bytes [simp]: "length (u64_bytes w) = 8"
  by (simp add: u64_bytes_def)

lemma bit_u64_of_bytes:
  "bit (u64_of_bytes bs) n \<longleftrightarrow> n < 64 \<and> n div 8 < length bs \<and> bit (bs ! (n div 8)) (n mod 8)"
proof (induction bs arbitrary: n)
  case Nil
  show ?case by (simp add: u64_of_bytes_def)
next
  case (Cons b bs)
  have step: "u64_of_bytes (b # bs) = ucast b OR push_bit 8 (u64_of_bytes bs)"
    by (simp add: u64_of_bytes_def)
  show ?case
  proof (cases "n < 8")
    case True
    then show ?thesis
      by (simp add: step bit_simps)
  next
    case False
    then have d: "n div 8 = Suc ((n - 8) div 8)" and m: "n mod 8 = (n - 8) mod 8"
      by (simp_all add: le_div_geq le_mod_geq)
    have "bit (ucast b :: u64) n = False"
      using False by (auto simp: bit_simps dest: bit_imp_le_length)
    with False show ?thesis
      unfolding step bit_or_iff bit_push_bit_iff d m Cons.IH [of "n - 8"]
      by (auto simp: bit_simps)
  qed
qed

lemma u64_of_bytes_u64_bytes [simp]: "u64_of_bytes (u64_bytes w) = w"
proof (rule bit_word_eqI)
  fix n assume "n < LENGTH(64)"
  then have n: "n < 64" by simp
  then have "n div 8 < 8" by simp
  then have "u64_bytes w ! (n div 8) = ucast (drop_bit (8 * (n div 8)) w)"
    by (simp add: u64_bytes_def)
  then show "bit (u64_of_bytes (u64_bytes w)) n = bit w n"
    using n \<open>n div 8 < 8\<close> by (simp add: bit_u64_of_bytes bit_simps)
qed

lemma read_u64_append [simp]: "read_u64 (u64_bytes w @ rest) = Some (w, rest)"
  by (simp add: read_u64_def)

lemma length_write_u64_array [simp]: "length (write_u64_array ws) = 8 * length ws"
  by (induction ws) (simp_all add: write_u64_array_def)

lemma write_u64_array_Cons: "write_u64_array (w # ws) = u64_bytes w @ write_u64_array ws"
  by (simp add: write_u64_array_def)

lemma take_drop_write_u64_array:
  "i < length ws \<Longrightarrow> take 8 (drop (8 * i) (write_u64_array ws @ rest)) = u64_bytes (ws ! i)"
proof (induction ws arbitrary: i)
  case Nil then show ?case by simp
next
  case (Cons w ws)
  show ?case
  proof (cases i)
    case 0 then show ?thesis by (simp add: write_u64_array_Cons)
  next
    case (Suc j)
    with Cons.prems have "j < length ws" by simp
    from Cons.IH [OF this] show ?thesis
      by (simp add: Suc write_u64_array_Cons)
  qed
qed

lemma read_u64_array_append [simp]:
  "read_u64_array (length ws) (write_u64_array ws @ rest) = Some (ws, rest)"
proof -
  have "map (\<lambda>i. u64_of_bytes (take 8 (drop (8 * i) (write_u64_array ws @ rest)))) [0..<length ws] = ws"
  proof (rule nth_equalityI)
    fix i assume "i < length (map (\<lambda>i. u64_of_bytes (take 8 (drop (8 * i) (write_u64_array ws @ rest)))) [0..<length ws])"
    then have i: "i < length ws" by simp
    then have "map (\<lambda>i. u64_of_bytes (take 8 (drop (8 * i) (write_u64_array ws @ rest)))) [0..<length ws] ! i
        = u64_of_bytes (take 8 (drop (8 * i) (write_u64_array ws @ rest)))"
      by (simp del: drop_append take_append)
    also have "\<dots> = ws ! i"
      by (simp only: take_drop_write_u64_array [OF i] u64_of_bytes_u64_bytes)
    finally show "map (\<lambda>i. u64_of_bytes (take 8 (drop (8 * i) (write_u64_array ws @ rest)))) [0..<length ws] ! i = ws ! i" .
  qed simp
  then show ?thesis by (simp add: read_u64_array_def)
qed

lemma read_u64_short: "length fp < 8 \<Longrightarrow> read_u64 fp = None"
  by (simp add: read_u64_def)

subsection \<open>The shape of a blob\<close>

lemma u64_bytes_zero: "u64_bytes 0 = replicate 8 0"
  by (simp add: u64_bytes_def map_replicate_const)

lemma concat_replicate_replicate:
  "concat (replicate n (replicate k x)) = replicate (n * k) x"
  by (induction n) (simp_all add: replicate_add)

lemma zero_header: "u64_bytes 0 @ write_u64_array (replicate 256 0) = replicate 2056 0"
  by (simp add: write_u64_array_def u64_bytes_zero concat_replicate_replicate
        flip: replicate_add)

lemma prefix_bitwriter_write_bit: "prefix (bw_fp bw) (bw_fp (bitwriter_write_bit bw b))"
  by (simp add: bitwriter_write_bit_def Let_def)

lemma prefix_bitwriter_write_bits:
  "prefix (bw_fp bw) (bw_fp (bitwriter_write_bits_from_string bw bits))"
  unfolding bitwriter_write_bits_from_string_def
proof (induction bits arbitrary: bw)
  case Nil show ?case by simp
next
  case (Cons p bits)
  show ?case
    using prefix_bitwriter_write_bit Cons.IH by (simp, meson prefix_order.trans)
qed

lemma prefix_encode_loop:
  "encode_loop codes inp bw = Inr bw' \<Longrightarrow> prefix (bw_fp bw) (bw_fp bw')"
proof (induction inp arbitrary: bw)
  case Nil then show ?case by simp
next
  case (Cons uc inp)
  then show ?case
    by (auto split: option.splits intro: prefix_order.trans [OF prefix_bitwriter_write_bits])
qed

lemma prefix_bitwriter_flush: "prefix (bw_fp bw) (bitwriter_flush bw)"
  by (simp add: bitwriter_flush_def)

lemma compress_file_shape:
  assumes "compress_file inp = Inr blob"
  shows "\<exists>r bitstream. build_huffman_tree (fst (count_frequencies inp)) = Inr (Some r) \<and>
           blob = u64_bytes (snd (count_frequencies inp))
                    @ write_u64_array (fst (count_frequencies inp)) @ bitstream"
proof -
  obtain f t where ft: "count_frequencies inp = (f, t)" by (cases "count_frequencies inp")
  from assms ft obtain r bw where r: "build_huffman_tree f = Inr (Some r)"
    and bw: "encode_loop (generate_codes (Some r)) inp (bitwriter_create (u64_bytes t @ write_u64_array f)) = Inr bw"
    and blob: "blob = bitwriter_flush bw"
    by (auto simp: compress_file_def Let_def split: sum.splits option.splits)
  from prefix_encode_loop [OF bw] have "prefix (u64_bytes t @ write_u64_array f) (bw_fp bw)"
    by (simp add: bitwriter_create_def)
  then have "prefix (u64_bytes t @ write_u64_array f) blob"
    unfolding blob using prefix_bitwriter_flush [of bw] by (rule prefix_order.trans)
  then obtain bitstream where "blob = (u64_bytes t @ write_u64_array f) @ bitstream"
    by (auto simp: prefix_def)
  with r ft show ?thesis by auto
qed

lemma length_count_frequencies_aux:
  "length (fst (fold (\<lambda>c (frequencies, total_chars).
             (frequencies[unat c := frequencies ! unat c + 1], total_chars + (1::u64))) inp (f0, t0))) = length f0"
  by (induction inp arbitrary: f0 t0) auto

lemma length_count_frequencies [simp]: "length (fst (count_frequencies inp)) = 256"
  by (simp add: count_frequencies_def length_count_frequencies_aux)

lemma decompress_zero: "decompress_file (replicate 2056 0 @ rest) = Inr []"
proof -
  have "decompress_file ((u64_bytes 0 @ write_u64_array (replicate 256 0)) @ rest) = Inr []"
    using read_u64_array_append [of "replicate 256 0" rest]
    by (simp add: decompress_file_def build_zero scan_only_char_eq nonzero_indices_zero
          decode_loop.simps del: read_u64_array_append)
  then show ?thesis by (simp only: zero_header)
qed

lemma compress_not_zero: "compress_file inp \<noteq> Inr (replicate 2056 0 @ rest)"
proof
  assume a: "compress_file inp = Inr (replicate 2056 0 @ rest)"
  obtain f t where ft: "count_frequencies inp = (f, t)" by (cases "count_frequencies inp")
  then have len: "length f = 256" using length_count_frequencies [of inp] by simp
  from compress_file_shape [OF a] ft obtain r bitstream
    where r: "build_huffman_tree f = Inr (Some r)"
      and eq: "replicate 2056 0 @ rest = u64_bytes t @ write_u64_array f @ bitstream"
    by auto
  have "read_u64 (replicate 2056 0 @ rest) = Some (t, write_u64_array f @ bitstream)"
    unfolding eq by simp
  moreover have "read_u64 ((u64_bytes 0 @ write_u64_array (replicate 256 0)) @ rest)
      = Some (0, write_u64_array (replicate 256 0) @ rest)"
    by simp
  ultimately have t0: "t = 0" and rest: "write_u64_array (replicate 256 0) @ rest = write_u64_array f @ bitstream"
    by (simp_all only: zero_header option.inject prod.inject)
  have "read_u64_array (length (replicate 256 (0::u64))) (write_u64_array (replicate 256 0) @ rest) = Some (replicate 256 0, rest)"
    by (rule read_u64_array_append)
  moreover have "read_u64_array (length f) (write_u64_array f @ bitstream) = Some (f, bitstream)"
    by (rule read_u64_array_append)
  ultimately have "f = replicate 256 0"
    using rest len by simp
  with r show False by (simp add: build_zero)
qed

subsection \<open>The heap operations keep the nodes\<close>

lemma mset_heap_swap:
  "a < length d \<Longrightarrow> b < length d \<Longrightarrow> mset (heap_swap d a b) = mset d"
  by (simp add: heap_swap_def mset_swap)

lemma mset_heapify_up: "idx < length d \<Longrightarrow> mset (heapify_up d idx) = mset d"
proof (induction d idx rule: heapify_up.induct)
  case (1 d idx)
  show ?case
  proof (cases "idx > 0 \<and> \<not> freq (d ! ((idx - 1) div 2)) \<le> freq (d ! idx)")
    case True
    with "1.prems" have p: "(idx - 1) div 2 < length d" by auto
    from True "1.prems" p
    have "mset (heapify_up (heap_swap d ((idx - 1) div 2) idx) ((idx - 1) div 2))
            = mset (heap_swap d ((idx - 1) div 2) idx)"
      by (intro "1.IH") auto
    with True p "1.prems" show ?thesis
      by (subst heapify_up.simps) (simp add: mset_heap_swap)
  next
    case False
    then show ?thesis by (subst heapify_up.simps) auto
  qed
qed

lemma mset_heapify_down: "mset (heapify_down d idx) = mset d"
proof (induction d idx rule: heapify_down.induct)
  case (1 d idx)
  show ?case
  proof (cases "smallest_of d idx = idx")
    case True
    then show ?thesis by (subst heapify_down.simps) simp
  next
    case False
    with smallest_of_cases [of d idx]
    have lt: "idx < smallest_of d idx" "smallest_of d idx < length d" by auto
    from "1.IH" [OF False] False lt show ?thesis
      by (subst heapify_down.simps) (simp add: mset_heap_swap)
  qed
qed

lemma mset_heap_insert [simp]: "mset (heap_insert h node) = add_mset node (mset h)"
  by (simp add: heap_insert_def mset_heapify_up)

lemma mset_drop_first:
  "h \<noteq> [] \<Longrightarrow> add_mset (h ! 0) (mset (take (length h - 1) (h[0 := h ! (length h - 1)]))) = mset h"
proof (cases h)
  case Nil
  assume "h \<noteq> []" with Nil show ?thesis by simp
next
  case (Cons x xs)
  show ?thesis
  proof (cases "xs = []")
    case True
    with Cons show ?thesis by simp
  next
    case False
    then have "xs = butlast xs @ [last xs]" by simp
    then have m: "mset xs = add_mset (last xs) (mset (butlast xs))"
      by (metis mset.simps(2) mset_rev rev.simps(2) rev_rev_ident union_mset_add_mset_right add.right_neutral mset_append mset.simps(1))
    from False have "(x # xs) ! length xs = last xs"
      by (metis last_conv_nth length_Cons diff_Suc_1 list.distinct(1) last.simps)
    with False Cons m show ?thesis
      by (simp add: butlast_conv_take take_Cons')
  qed
qed

lemma heap_extract_min_nonempty:
  assumes "h \<noteq> []"
  obtains m h' where "heap_extract_min h = (Some m, h')" and "mset h = add_mset m (mset h')"
    and "length h' = length h - 1"
proof -
  let ?h' = "heapify_down (take (length h - 1) (h[0 := h ! (length h - 1)])) 0"
  from assms have "heap_extract_min h = (Some (h ! 0), ?h')"
    by (simp add: heap_extract_min_def)
  moreover have "mset h = add_mset (h ! 0) (mset ?h')"
    using mset_drop_first [OF assms] by (simp add: mset_heapify_down)
  moreover have "length ?h' = length h - 1" by simp
  ultimately show thesis by (rule that)
qed

subsection \<open>The tree that is built\<close>

lemma leaf_chars_simps [simp]:
  "leaf_chars (Leaf c f) = [c]"
  "leaf_chars (Internal f l r) = leaf_chars l @ leaf_chars r"
  by (simp_all add: leaf_chars_def case_prod_unfold comp_def)

lemma forest_chars_add [simp]:
  "forest_chars (add_mset t F) = mset (leaf_chars t) + forest_chars F"
  by (simp add: forest_chars_def)

lemma forest_chars_empty [simp]: "forest_chars {#} = {#}"
  by (simp add: forest_chars_def)

lemma merge_loop_result:
  "heap \<noteq> [] \<Longrightarrow>
   \<exists>t. merge_loop heap = Some [t] \<and> mset (leaf_chars t) = forest_chars (mset heap)
       \<and> (length heap > 1 \<longrightarrow> (\<exists>f l r. t = Internal f l r))"
proof (induction heap rule: merge_loop.induct)
  case (1 heap)
  show ?case
  proof (cases "length heap > 1")
    case False
    with "1.prems" obtain t where "heap = [t]"
      by (cases heap) auto
    then show ?thesis by (subst merge_loop.simps) simp
  next
    case True
    from "1.prems" obtain l heap1 where e1: "heap_extract_min heap = (Some l, heap1)"
      and m1: "mset heap = add_mset l (mset heap1)" and l1: "length heap1 = length heap - 1"
      by (rule heap_extract_min_nonempty)
    from l1 True have "heap1 \<noteq> []" by auto
    then obtain r heap2 where e2: "heap_extract_min heap1 = (Some r, heap2)"
      and m2: "mset heap1 = add_mset r (mset heap2)"
      by (rule heap_extract_min_nonempty)
    let ?p = "Internal (freq l + freq r) l r"
    let ?new = "heap_insert heap2 ?p"
    have ne: "?new \<noteq> []" by (metis length_heap_insert length_0_conv nat.distinct(1))
    from "1.IH" [OF True e1 [symmetric] refl e2 [symmetric] refl ne]
    obtain t where t: "merge_loop ?new = Some [t]"
      and ch: "mset (leaf_chars t) = forest_chars (mset ?new)"
      and int: "length ?new > 1 \<longrightarrow> (\<exists>f l r. t = Internal f l r)"
      by auto
    have step: "merge_loop heap = merge_loop ?new"
      using True e1 e2 by (subst merge_loop.simps) simp
    have "forest_chars (mset ?new) = forest_chars (mset heap)"
      by (simp add: m1 m2)
    moreover have "\<exists>f l r. t = Internal f l r"
    proof (cases "length ?new > 1")
      case True with int show ?thesis by simp
    next
      case False
      then have "length heap2 = 0" by simp
      then have "mset ?new = {#?p#}" by simp
      then have "?new = [?p]" by (metis mset_single_iff_right)
      with t have "t = ?p" by (subst (asm) merge_loop.simps) simp
      then show ?thesis by blast
    qed
    ultimately show ?thesis using t ch step by simp
  qed
qed

lemma mset_fold_heap_insert:
  "mset (fold (\<lambda>i heap. heap_insert heap (g i)) xs h) = mset h + mset (map g xs)"
  by (induction xs arbitrary: h) auto

lemma mset_insert_leaves:
  "mset (insert_leaves frequencies)
     = mset (map (\<lambda>i. Leaf (of_nat i) (frequencies ! i)) (nonzero_indices frequencies))"
  by (simp add: insert_leaves_eq mset_fold_heap_insert)

lemma forest_chars_leaves:
  "forest_chars (mset (map (\<lambda>i. Leaf (g i) (h i)) xs)) = mset (map g xs)"
  by (induction xs) simp_all

text \<open>
  The builder never reads through NULL. It returns NULL exactly for the all-zero table, a
  single leaf when one byte has a nonzero frequency, and otherwise an internal node whose
  leaves are the bytes with a nonzero frequency, each once.
\<close>

lemma build_huffman_tree_None:
  "uniqueCount frequencies = 0 \<Longrightarrow> build_huffman_tree frequencies = Inr None"
  by (simp add: build_huffman_tree_def)

lemma build_huffman_tree_single:
  assumes "nonzero_indices frequencies = [i]"
  shows "build_huffman_tree frequencies = Inr (Some (Leaf (of_nat i) (frequencies ! i)))"
proof -
  have "insert_leaves frequencies = [Leaf (of_nat i) (frequencies ! i)]"
    using assms by (simp add: insert_leaves_eq heap_insert_def heapify_up.simps)
  then show ?thesis
    using assms by (simp add: build_huffman_tree_def uniqueCount_eq heap_extract_min_def)
qed

lemma build_huffman_tree_many:
  assumes "uniqueCount frequencies > 1"
  shows "\<exists>f l r. build_huffman_tree frequencies = Inr (Some (Internal f l r))
           \<and> mset (leaf_chars (Internal f l r)) = mset (map of_nat (nonzero_indices frequencies))"
proof -
  let ?heap = "insert_leaves frequencies"
  from assms have len: "length ?heap > 1" by (simp add: length_insert_leaves)
  then have "?heap \<noteq> []" by auto
  from merge_loop_result [OF this] len obtain f l r
    where m: "merge_loop ?heap = Some [Internal f l r]"
      and ch: "mset (leaf_chars (Internal f l r)) = forest_chars (mset ?heap)"
    by blast
  have "build_huffman_tree frequencies = Inr (Some (Internal f l r))"
    using assms len m by (simp add: build_huffman_tree_def heap_extract_min_def)
  moreover have "forest_chars (mset ?heap) = mset (map of_nat (nonzero_indices frequencies))"
    by (simp only: mset_insert_leaves forest_chars_leaves)
  ultimately show ?thesis using ch by auto
qed

lemma build_huffman_tree_no_crash: "build_huffman_tree frequencies \<noteq> Inl e"
proof -
  consider "uniqueCount frequencies = 0" | "uniqueCount frequencies = 1"
    | "uniqueCount frequencies > 1" by linarith
  then show ?thesis
  proof cases
    case 1 then show ?thesis by (simp add: build_huffman_tree_None)
  next
    case 2
    then obtain i where "nonzero_indices frequencies = [i]"
      by (auto simp: uniqueCount_eq length_Suc_conv)
    then show ?thesis by (simp add: build_huffman_tree_single)
  next
    case 3
    from build_huffman_tree_many [OF this] show ?thesis by auto
  qed
qed

subsection \<open>The functions of huffman2.c compute what those of huffman.c compute\<close>

lemma smallest_of2_eq: "smallest_of2 d idx = smallest_of d idx"
  by (simp add: smallest_of2_def smallest_of_def mult.commute)

lemma heapify_down2_eq: "heapify_down2 d idx = heapify_down d idx"
proof (induction d idx rule: heapify_down.induct)
  case (1 d idx)
  show ?case
  proof (cases "smallest_of d idx = idx")
    case True
    then show ?thesis
      by (subst heapify_down2.simps, subst heapify_down.simps) (simp add: smallest_of2_eq)
  next
    case False
    from "1.IH" [OF False] False show ?thesis
      by (subst heapify_down2.simps, subst heapify_down.simps) (simp add: smallest_of2_eq)
  qed
qed

lemma heap_insert2_eq: "heap_insert2 h node = heap_insert h node"
  by (simp add: heap_insert2_def heap_insert_def)

lemma heap_insert2_fun: "heap_insert2 = heap_insert"
  by (intro ext) (rule heap_insert2_eq)

lemma heap_extract_min2_eq: "heap_extract_min2 h = heap_extract_min h"
  by (simp add: heap_extract_min2_def heap_extract_min_def heapify_down2_eq Let_def)

lemma heap_extract_min2_fun: "heap_extract_min2 = heap_extract_min"
  by (intro ext) (rule heap_extract_min2_eq)

lemma insert_leaves2_eq: "insert_leaves2 frequencies = insert_leaves frequencies"
  unfolding insert_leaves2_def insert_leaves_def heap_insert2_fun ..

lemma merge_loop2_eq: "merge_loop2 heap = merge_loop heap"
proof (induction heap rule: merge_loop.induct)
  case (1 heap)
  show ?case
  proof (cases "length heap > 1")
    case False
    then show ?thesis
      by (subst merge_loop2.simps, subst merge_loop.simps) simp
  next
    case True
    show ?thesis
    proof (cases "heap_extract_min heap")
      case (Pair p heap1)
      show ?thesis
      proof (cases p)
        case None
        with True Pair show ?thesis
          by (subst merge_loop2.simps, subst merge_loop.simps) (simp add: heap_extract_min2_eq)
      next
        case (Some l)
        show ?thesis
        proof (cases "heap_extract_min heap1")
          case inner: (Pair q heap2)
          show ?thesis
          proof (cases q)
            case None
            with True Pair Some inner show ?thesis
              by (subst merge_loop2.simps, subst merge_loop.simps)
                 (simp add: heap_extract_min2_eq)
          next
            case r: (Some r)
            from "1.IH" [OF True Pair [symmetric] Some inner [symmetric] r]
            have "merge_loop2 (heap_insert heap2 (Internal (freq l + freq r) l r))
                    = merge_loop (heap_insert heap2 (Internal (freq l + freq r) l r))" .
            with True Pair Some inner r show ?thesis
              by (subst merge_loop2.simps, subst merge_loop.simps)
                 (simp add: heap_extract_min2_eq heap_insert2_eq)
          qed
        qed
      qed
    qed
  qed
qed

lemma merge_loop2_fun: "merge_loop2 = merge_loop"
  by (intro ext) (rule merge_loop2_eq)

lemma build_huffman_tree2_eq: "build_huffman_tree2 frequencies = build_huffman_tree frequencies"
  unfolding build_huffman_tree2_def build_huffman_tree_def insert_leaves2_eq
    merge_loop2_fun heap_extract_min2_fun ..

lemma build_huffman_tree2_fun: "build_huffman_tree2 = build_huffman_tree"
  by (intro ext) (rule build_huffman_tree2_eq)

lemma generate_codes2_eq: "generate_codes2 tree_root = generate_codes tree_root"
  by (simp add: generate_codes2_def generate_codes_def)

lemma bitwriter_write_bits_from_string2_eq:
  "bitwriter_write_bits_from_string2 bw s = bitwriter_write_bits_from_string bw s"
proof -
  have "(\<lambda>p bw. bitwriter_write_bit bw (of_bool (p = CHR ''1'')))
          = (\<lambda>p bw. bitwriter_write_bit bw (if p = CHR ''1'' then 1 else 0))"
    by (auto simp: fun_eq_iff)
  then show ?thesis
    by (simp add: bitwriter_write_bits_from_string2_def bitwriter_write_bits_from_string_def)
qed

lemma encode_loop2_eq: "encode_loop2 codes inp bw = encode_loop codes inp bw"
  by (induction inp arbitrary: bw)
     (simp_all add: bitwriter_write_bits_from_string2_eq split: option.splits)

lemma decode_loop2_eq:
  "decode_loop2 tree_root total_chars br node written out
     = decode_loop tree_root total_chars br node written out"
proof (induction tree_root total_chars br node written out rule: decode_loop.induct)
  case (1 tree_root total_chars br node written out)
  show ?case
    by (subst decode_loop2.simps, subst decode_loop.simps)
       (auto split: option.splits HuffmanNode.splits simp: "1.IH")
qed

lemma decode_loop2_fun: "decode_loop2 = decode_loop"
  by (intro ext) (rule decode_loop2_eq)

lemma decompress_file2_eq: "decompress_file2 inp = decompress_file inp"
  unfolding decompress_file2_def decompress_file_def build_huffman_tree2_fun decode_loop2_fun ..

subsection \<open>The frequency table of an input\<close>

lemma unat_byte_less: "unat (c :: byte) < 256"
  using unsigned_less [of c, where ?'a = nat] by simp

lemma unat_of_nat_byte: "i < 256 \<Longrightarrow> unat (of_nat i :: byte) = i"
  by (simp add: unat_of_nat)

lemma unat_of_nat_u64: "n < 2 ^ 64 \<Longrightarrow> unat (of_nat n :: u64) = n"
  by (simp add: unat_of_nat)

lemma byte_index_eq: "i < 256 \<Longrightarrow> (unat (c :: byte) = i) = (c = of_nat i)"
  by (auto simp: unat_of_nat_byte)

lemma count_frequencies_fold:
  "length f0 = 256 \<Longrightarrow>
   fold (\<lambda>c (frequencies, total_chars).
           (frequencies[unat c := frequencies ! unat c + 1], total_chars + 1)) inp (f0, t0)
     = (map (\<lambda>i. f0 ! i + of_nat (count_list inp (of_nat i :: byte))) [0..<256],
        t0 + of_nat (length inp) :: u64)"
proof (induction inp arbitrary: f0 t0)
  case Nil
  then show ?case by (simp add: map_nth [symmetric] del: map_nth) (metis map_nth)
next
  case (Cons c inp)
  let ?f1 = "f0[unat c := f0 ! unat c + 1]"
  have len: "length ?f1 = 256" using Cons.prems by simp
  have "map (\<lambda>i. ?f1 ! i + of_nat (count_list inp (of_nat i :: byte))) [0..<256]
          = map (\<lambda>i. f0 ! i + of_nat (count_list (c # inp) (of_nat i :: byte))) [0..<256]"
  proof (rule map_cong [OF refl])
    fix i assume "i \<in> set [0..<256]"
    then have i: "i < 256" by simp
    with Cons.prems byte_index_eq [OF i, of c]
    show "?f1 ! i + of_nat (count_list inp (of_nat i :: byte))
            = f0 ! i + of_nat (count_list (c # inp) (of_nat i :: byte))"
      by (auto simp: nth_list_update add.assoc)
  qed
  with Cons.IH [OF len, of "t0 + 1"] show ?case
    by (simp add: add.assoc add.commute)
qed

lemma count_frequencies_eq:
  "count_frequencies inp
     = (map (\<lambda>i. of_nat (count_list inp (of_nat i :: byte))) [0..<256], of_nat (length inp))"
  unfolding count_frequencies_def
  by (subst count_frequencies_fold) simp_all

lemma count_frequencies_nth:
  "i < 256 \<Longrightarrow> fst (count_frequencies inp) ! i = of_nat (count_list inp (of_nat i))"
  by (simp add: count_frequencies_eq)

lemma count_frequencies_byte:
  "fst (count_frequencies inp) ! unat (v :: byte) = of_nat (count_list inp v)"
proof -
  show ?thesis using unat_byte_less [of v] by (simp add: count_frequencies_nth)
qed

lemma count_frequencies_total: "snd (count_frequencies inp) = of_nat (length inp)"
  by (simp add: count_frequencies_eq)

lemma sum_list_byte_indicator:
  "sum_list (map (\<lambda>i. if (c :: byte) = of_nat i then 1 else 0) [0..<256]) = (1 :: nat)"
proof -
  have u: "unat c < 256" by (rule unat_byte_less)
  have "sum_list (map (\<lambda>i. if c = of_nat i then 1 else 0) [0..<256])
          = (\<Sum>i\<in>{0..<256}. if unat c = i then 1 else (0::nat))"
    unfolding interv_sum_list_conv_sum_set_nat
    by (rule sum.cong) (simp_all add: byte_index_eq)
  also have "\<dots> = 1" using u by simp
  finally show ?thesis .
qed

lemma sum_count_list_bytes:
  "sum_list (map (\<lambda>i. count_list inp (of_nat i :: byte)) [0..<256]) = length inp"
proof (induction inp)
  case Nil show ?case by simp
next
  case (Cons c inp)
  have "(\<lambda>i. count_list (c # inp) (of_nat i :: byte))
          = (\<lambda>i. count_list inp (of_nat i) + (if c = of_nat i then 1 else 0))"
    by (auto simp: fun_eq_iff)
  then show ?case
    using Cons.IH sum_list_byte_indicator [of c] by (simp add: sum_list_addf)
qed

lemma sum_list_of_nat: "sum_list (map (\<lambda>i. of_nat (g i)) xs) = (of_nat (sum_list (map g xs)) :: u64)"
  by (induction xs) simp_all

text \<open>The counters are taken modulo \<open>2 ^ 64\<close>; their sum is the total counter.\<close>

lemma sum_list_count_frequencies:
  "sum_list (fst (count_frequencies inp)) = snd (count_frequencies inp)"
  by (simp add: count_frequencies_eq sum_list_of_nat sum_count_list_bytes)

lemma count_list_le_length: "count_list xs x \<le> length xs"
  by (induction xs) auto

lemma unat_count_frequencies:
  assumes "length inp < 2 ^ 64"
  shows "unat (snd (count_frequencies inp)) = length inp"
    and "unat (fst (count_frequencies inp) ! unat (v :: byte)) = count_list inp v"
    and "sum_list (map unat (fst (count_frequencies inp))) = length inp"
proof -
  have small: "count_list inp x < 2 ^ 64" for x :: byte
    using count_list_le_length [of inp x] assms by simp
  show "unat (snd (count_frequencies inp)) = length inp"
    using assms by (simp add: count_frequencies_total unat_of_nat_u64)
  show "unat (fst (count_frequencies inp) ! unat v) = count_list inp v"
    using small [of v] by (simp only: count_frequencies_byte unat_of_nat_u64)
  have "map unat (fst (count_frequencies inp))
          = map (\<lambda>i. count_list inp (of_nat i :: byte)) [0..<256]"
    using small by (simp add: count_frequencies_eq unat_of_nat_u64)
  then show "sum_list (map unat (fst (count_frequencies inp))) = length inp"
    by (simp only: sum_count_list_bytes)
qed

lemma nonzero_indices_empty_iff:
  "nonzero_indices frequencies = [] \<longleftrightarrow> (\<forall>i<256. frequencies ! i = 0)"
  by (auto simp: nonzero_indices_def filter_empty_conv word_greater_zero_iff)

lemma sum_list_zero_table:
  assumes "length (f :: u64 list) = 256" and "\<forall>i<256. f ! i = 0"
  shows "sum_list f = 0"
proof -
  have "f = replicate 256 0"
    using assms by (intro nth_equalityI) simp_all
  then show ?thesis by (simp add: sum_list_replicate)
qed

lemma uniqueCount_count_frequencies:
  "snd (count_frequencies inp) \<noteq> 0 \<Longrightarrow> uniqueCount (fst (count_frequencies inp)) > 0"
  using sum_list_zero_table [of "fst (count_frequencies inp)"]
  by (auto simp: uniqueCount_eq nonzero_indices_empty_iff sum_list_count_frequencies)

subsection \<open>The decoding loop\<close>

lemma unat_inc_less:
  assumes "(written :: u64) < total_chars"
  shows "unat (written + 1) = Suc (unat written)" and "written + 1 \<le> total_chars"
proof -
  from assms have "unat written < unat total_chars" by (simp add: word_less_nat_alt)
  moreover have "unat total_chars < 2 ^ 64"
    using unsigned_less [of total_chars, where ?'a = nat] by simp
  ultimately have "Suc (unat written) < 2 ^ 64" by simp
  then show "unat (written + 1) = Suc (unat written)"
    by (simp add: unat_word_ariths)
  with \<open>unat written < unat total_chars\<close> show "written + 1 \<le> total_chars"
    by (simp add: word_le_nat_alt)
qed

text \<open>
  When the tree has at least two leaves the loop never reads through NULL: at the head of
  the body \<^verbatim>\<open>node\<close> is an internal node. It returns \<^verbatim>\<open>written\<close> and the output with one
  byte per symbol counted, and it consumes at least one bit per symbol.
\<close>

lemma decode_loop_result:
  assumes "tree_root = Some (Internal f0 l0 r0)" and "node = Some (Internal f l r)"
    and "written \<le> total_chars"
  shows "\<exists>w out'. decode_loop tree_root total_chars br node written out = Inr (w, out')
           \<and> written \<le> w \<and> w \<le> total_chars
           \<and> length out' = length out + (unat w - unat written)
           \<and> unat w - unat written \<le> bits_left br"
  using assms
proof (induction tree_root total_chars br node written out arbitrary: f l r
         rule: decode_loop.induct)
  case (1 tree_root total_chars br node written out)
  show ?case
  proof (cases "written < total_chars")
    case False
    then show ?thesis
      using "1.prems" by (subst decode_loop.simps) simp
  next
    case True
    note lt = True
    show ?thesis
    proof (cases "bitreader_read_bit br")
      case None
      with lt "1.prems" show ?thesis
        by (subst decode_loop.simps) simp
    next
      case (Some a)
      obtain bitv br' where a: "a = (bitv, br')" by (cases a)
      note rd = Some [unfolded a]
      from bitreader_read_bit_less [OF rd] have less: "bits_left br' < bits_left br" .
      let ?child = "if bitv = 0 then l else r"
      show ?thesis
      proof (cases ?child)
        case (Leaf c f')
        have step: "decode_loop tree_root total_chars br node written out
                      = decode_loop tree_root total_chars br' tree_root (written + 1) (out @ [c])"
          using lt rd Leaf "1.prems"(2) by (subst decode_loop.simps) simp
        from unat_inc_less [OF lt]
        have u: "unat (written + 1) = Suc (unat written)" and le: "written + 1 \<le> total_chars"
          by simp_all
        from "1.IH"(1) [OF lt rd refl "1.prems"(2) refl Leaf
                "1.prems"(1) "1.prems"(1) le]
        obtain w out' where
          r: "decode_loop tree_root total_chars br' tree_root (written + 1) (out @ [c]) = Inr (w, out')"
          and b: "written + 1 \<le> w" "w \<le> total_chars"
            "length out' = length (out @ [c]) + (unat w - unat (written + 1))"
            "unat w - unat (written + 1) \<le> bits_left br'"
          by blast
        from b(1) u have "Suc (unat written) \<le> unat w" by (simp add: word_le_nat_alt)
        with b u less r step show ?thesis
          by (auto simp: word_le_nat_alt)
      next
        case (Internal f' l' r')
        have step: "decode_loop tree_root total_chars br node written out
                      = decode_loop tree_root total_chars br' (Some (Internal f' l' r')) written out"
          using lt rd Internal "1.prems"(2) by (subst decode_loop.simps) simp
        from "1.IH"(2) [OF lt rd refl "1.prems"(2) refl Internal
                "1.prems"(1) refl "1.prems"(3)]
        obtain w out' where
          r: "decode_loop tree_root total_chars br' (Some (Internal f' l' r')) written out = Inr (w, out')"
          and b: "written \<le> w" "w \<le> total_chars"
            "length out' = length out + (unat w - unat written)"
            "unat w - unat written \<le> bits_left br'"
          by blast
        with less step show ?thesis by auto
      qed
    qed
  qed
qed

lemma decode_loop_zero:
  "decode_loop tree_root 0 br node 0 out = Inr (0, out)"
  by (subst decode_loop.simps) simp

subsection \<open>What decompress_file returns\<close>

lemma length_header_frequencies [simp]: "length (header_frequencies blob) = 256"
  by (simp add: header_frequencies_def)

lemma decompress_file_short:
  "length blob < 2056 \<Longrightarrow> decompress_file blob = Inl TruncatedHeaderError"
  by (auto simp: decompress_file_def read_u64_def read_u64_array_def)

lemma header_fields_written:
  assumes "length frequencies = 256"
  shows "header_total (u64_bytes t @ write_u64_array frequencies @ bitstream) = t"
    and "header_frequencies (u64_bytes t @ write_u64_array frequencies @ bitstream) = frequencies"
    and "drop 2056 (u64_bytes t @ write_u64_array frequencies @ bitstream) = bitstream"
proof -
  show "header_total (u64_bytes t @ write_u64_array frequencies @ bitstream) = t"
    by (simp add: header_total_def)
  have "read_u64_array (length frequencies) (write_u64_array frequencies @ bitstream)
          = Some (frequencies, bitstream)"
    by (rule read_u64_array_append)
  then show "header_frequencies (u64_bytes t @ write_u64_array frequencies @ bitstream) = frequencies"
    using assms by (simp add: header_frequencies_def read_u64_array_def)
  show "drop 2056 (u64_bytes t @ write_u64_array frequencies @ bitstream) = bitstream"
    using assms by simp
qed

lemma decompress_file_long:
  assumes "2056 \<le> length blob"
  shows "decompress_file blob =
     (case build_huffman_tree (header_frequencies blob) of
        Inl e \<Rightarrow> Inl e
      | Inr tree_root \<Rightarrow>
          if tree_root = None \<and> header_total blob > 0 then Inl TreeConstructionError
          else if uniqueCount (header_frequencies blob) = 1
               then Inr (replicate (unat (header_total blob)) (snd (scan_only_char (header_frequencies blob))))
               else (case decode_loop tree_root (header_total blob) (bitreader_create (drop 2056 blob))
                            tree_root 0 [] of
                       Inl e \<Rightarrow> Inl e
                     | Inr (written, out) \<Rightarrow>
                         if written = header_total blob then Inr out
                         else Inl (UnexpectedEndOfStreamError out)))"
proof -
  from assms have 1: "read_u64 blob = Some (header_total blob, drop 8 blob)"
    by (simp add: read_u64_def header_total_def)
  from assms have 2: "read_u64_array 256 (drop 8 blob) = Some (header_frequencies blob, drop 2056 blob)"
    by (simp add: read_u64_array_def header_frequencies_def)
  have 3: "scan_only_char (header_frequencies blob)
             = (uniqueCount (header_frequencies blob), snd (scan_only_char (header_frequencies blob)))"
    by (simp add: scan_only_char_eq uniqueCount_eq)
  show ?thesis
    unfolding decompress_file_def 1 2 option.case prod.case
    by (subst 3) (simp only: prod.case)
qed

lemma decompress_file_empty_tree:
  assumes "2056 \<le> length blob" and "uniqueCount (header_frequencies blob) = 0"
  shows "decompress_file blob =
           (if header_total blob > 0 then Inl TreeConstructionError else Inr [])"
  using assms
  by (simp add: decompress_file_long build_huffman_tree_None decode_loop_zero
        word_greater_zero_iff)

lemma decompress_file_single:
  assumes "2056 \<le> length blob" and "nonzero_indices (header_frequencies blob) = [i]"
  shows "decompress_file blob = Inr (replicate (unat (header_total blob)) (of_nat i))"
  using assms
  by (simp add: decompress_file_long build_huffman_tree_single uniqueCount_eq scan_only_char_eq)

lemma decompress_file_many:
  assumes "2056 \<le> length blob" and "uniqueCount (header_frequencies blob) > 1"
  shows "\<exists>w out. w \<le> header_total blob \<and> length out = unat w
           \<and> unat w \<le> 8 * (length blob - 2056)
           \<and> decompress_file blob =
                (if w = header_total blob then Inr out else Inl (UnexpectedEndOfStreamError out))"
proof -
  from build_huffman_tree_many [OF assms(2)] obtain f l r
    where b: "build_huffman_tree (header_frequencies blob) = Inr (Some (Internal f l r))"
    by blast
  from decode_loop_result [where tree_root = "Some (Internal f l r)"
         and node = "Some (Internal f l r)" and written = 0
         and total_chars = "header_total blob"
         and br = "bitreader_create (drop 2056 blob)" and out = "[]", OF refl refl]
  obtain w out where
    d: "decode_loop (Some (Internal f l r)) (header_total blob) (bitreader_create (drop 2056 blob))
          (Some (Internal f l r)) 0 [] = Inr (w, out)"
    and w: "w \<le> header_total blob" "length out = unat w"
       "unat w \<le> bits_left (bitreader_create (drop 2056 blob))"
    by auto
  have "bits_left (bitreader_create (drop 2056 blob)) = 8 * (length blob - 2056)"
    by (simp add: bits_left_def bitreader_create_def)
  with w d b assms show ?thesis
    by (auto simp: decompress_file_long)
qed

subsection \<open>Concrete tables and inputs\<close>

lemma sorted_nonzero_indices: "sorted (nonzero_indices frequencies)"
  by (simp add: nonzero_indices_def sorted_wrt_filter)

lemma distinct_nonzero_indices: "distinct (nonzero_indices frequencies)"
  by (simp add: nonzero_indices_def)

lemma set_nonzero_indices:
  "set (nonzero_indices frequencies) = {i. i < 256 \<and> frequencies ! i \<noteq> 0}"
  by (auto simp: nonzero_indices_def word_greater_zero_iff)

lemma nonzero_indices_eqI:
  assumes "sorted xs" and "distinct xs" and "set xs = {i. i < 256 \<and> frequencies ! i \<noteq> 0}"
  shows "nonzero_indices frequencies = xs"
  using sorted_distinct_set_unique [OF sorted_nonzero_indices distinct_nonzero_indices assms(1,2)]
    assms(3) by (simp add: set_nonzero_indices)

lemma nonzero_indices_A: "nonzero_indices ((replicate 256 0)[65 := 4]) = [65]"
  by (rule nonzero_indices_eqI) (auto simp: nth_list_update)

lemma nonzero_indices_ab: "nonzero_indices ((replicate 256 0)[97 := 1, 98 := 1]) = [97, 98]"
  by (rule nonzero_indices_eqI) (auto simp: nth_list_update)

lemma count_frequencies_ab:
  "count_frequencies [97, 98] = ((replicate 256 0)[97 := 1, 98 := 1], 2)"
  by (simp add: count_frequencies_def)

lemma count_frequencies_AAAA:
  "count_frequencies [65, 65, 65, 65] = ((replicate 256 0)[65 := 4], 4)"
  by (simp add: count_frequencies_def)

lemma build_huffman_tree_A:
  "build_huffman_tree ((replicate 256 0)[65 := 4]) = Inr (Some (Leaf 65 4))"
  using build_huffman_tree_single [OF nonzero_indices_A] by simp

lemma insert_leaves_ab:
  "insert_leaves ((replicate 256 0)[97 := 1, 98 := 1]) = [Leaf 97 1, Leaf 98 1]"
  by (simp add: insert_leaves_eq nonzero_indices_ab heap_insert_def heapify_up.simps)

lemma merge_loop_ab:
  "merge_loop [Leaf 97 1, Leaf 98 1] = Some [Internal 2 (Leaf 97 1) (Leaf 98 1)]"
  by code_simp

lemma build_huffman_tree_ab:
  "build_huffman_tree ((replicate 256 0)[97 := 1, 98 := 1])
     = Inr (Some (Internal 2 (Leaf 97 1) (Leaf 98 1)))"
  by (simp add: build_huffman_tree_def uniqueCount_eq nonzero_indices_ab insert_leaves_ab
        merge_loop_ab heap_extract_min_def)

lemma generate_codes_ab:
  "generate_codes (Some (Internal 2 (Leaf 97 1) (Leaf 98 1)))
     = (replicate 256 None)[97 := Some ''0'', 98 := Some ''1'']"
  by (simp add: generate_codes_def)

lemma compress_file_ab:
  "compress_file [97, 98]
     = Inr (u64_bytes 2 @ write_u64_array ((replicate 256 0)[97 := 1, 98 := 1]) @ [64])"
  by (simp add: compress_file_def count_frequencies_ab build_huffman_tree_ab generate_codes_ab
        bitwriter_create_def bitwriter_write_bits_from_string_def bitwriter_write_bit_def
        bitwriter_flush_def)

lemma decode_ab:
  "decode_loop (Some (Internal 2 (Leaf 97 1) (Leaf 98 1))) 2 (bitreader_create [64])
     (Some (Internal 2 (Leaf 97 1) (Leaf 98 1))) 0 [] = Inr (2, [97, 97])"
  by (simp add: decode_loop.simps bitreader_create_def bitreader_read_bit_def
        bitreader_fill_def)

lemma decompress_file_ab:
  "decompress_file (u64_bytes 2 @ write_u64_array ((replicate 256 0)[97 := 1, 98 := 1]) @ [64])
     = Inr [97, 97]"
  by (subst decompress_file_long)
     (simp_all add: header_fields_written build_huffman_tree_ab uniqueCount_eq
        nonzero_indices_ab decode_ab)

subsection \<open>compress_file of the two files\<close>

lemma build_huffman_tree_Some:
  assumes "uniqueCount frequencies > 0"
  shows "\<exists>t. build_huffman_tree frequencies = Inr (Some t)"
proof (cases "uniqueCount frequencies = 1")
  case True
  then obtain i where "nonzero_indices frequencies = [i]"
    by (auto simp: uniqueCount_eq length_Suc_conv)
  then show ?thesis by (simp add: build_huffman_tree_single)
next
  case False
  with assms have "uniqueCount frequencies > 1" by simp
  from build_huffman_tree_many [OF this] show ?thesis by blast
qed

lemma uniqueCount_pos_iff: "uniqueCount frequencies > 0 \<longleftrightarrow> (\<exists>i<256. frequencies ! i \<noteq> 0)"
  using nonzero_indices_empty_iff [of frequencies] by (auto simp: uniqueCount_eq)

lemma encode_loop_error: "encode_loop codes inp bw = Inl e \<Longrightarrow> \<exists>uc. e = NoCodeError uc"
  by (induction inp arbitrary: bw) (auto split: option.splits)

lemma compress_file_error:
  assumes "compress_file inp = Inl e"
  shows "(e = EmptyInputError \<and> uniqueCount (fst (count_frequencies inp)) = 0)
           \<or> (\<exists>uc. e = NoCodeError uc)"
proof (cases "uniqueCount (fst (count_frequencies inp)) = 0")
  case True
  with assms show ?thesis
    by (simp add: compress_file_def build_huffman_tree_None split: prod.splits)
next
  case False
  then obtain t where "build_huffman_tree (fst (count_frequencies inp)) = Inr (Some t)"
    using build_huffman_tree_Some by auto
  with assms show ?thesis
    by (auto simp: compress_file_def Let_def split: prod.splits sum.splits
          dest: encode_loop_error)
qed

lemma encode_loop2_fun: "encode_loop2 = encode_loop"
  by (intro ext) (rule encode_loop2_eq)

lemma generate_codes2_fun: "generate_codes2 = generate_codes"
  by (intro ext) (rule generate_codes2_eq)

text \<open>
  huffman2.c differs from huffman.c in one test: it refuses the input when the 64-bit
  counter \<^verbatim>\<open>total\<close> is 0.
\<close>

lemma compress_file2_char:
  "compress_file2 inp =
     (if snd (count_frequencies inp) = 0 then Inl EmptyInputError else compress_file inp)"
proof (cases "snd (count_frequencies inp) = 0")
  case True
  then show ?thesis by (cases "count_frequencies inp") (simp add: compress_file2_def)
next
  case False
  from uniqueCount_count_frequencies [OF this] obtain t
    where t: "build_huffman_tree (fst (count_frequencies inp)) = Inr (Some t)"
    using build_huffman_tree_Some by blast
  obtain f n where fn: "count_frequencies inp = (f, n)" by (cases "count_frequencies inp")
  with False t show ?thesis
    unfolding compress_file2_def compress_file_def build_huffman_tree2_fun
      generate_codes2_fun encode_loop2_fun
    by simp
qed

lemma compress_file2_eq:
  assumes "length inp < 2 ^ 64"
  shows "compress_file2 inp = compress_file inp"
proof (cases "inp = []")
  case True
  then show ?thesis
    by (simp add: compress_file2_char compress_file_Nil)
next
  case False
  with assms have "unat (snd (count_frequencies inp)) \<noteq> 0"
    by (simp add: unat_count_frequencies(1))
  then have "snd (count_frequencies inp) \<noteq> 0" by auto
  then show ?thesis by (simp add: compress_file2_char)
qed

lemma compress_file2_Inr: "compress_file2 inp = Inr blob \<Longrightarrow> compress_file inp = Inr blob"
  by (simp add: compress_file2_char split: if_splits)

lemma compress_file2_Nil: "compress_file2 [] = Inl EmptyInputError"
  by (simp add: compress_file2_char count_frequencies_Nil)

subsection \<open>The codes of a tree\<close>

lemma generate_codes_recursive_fold:
  "generate_codes_recursive t buffer codes
     = fold (\<lambda>(c, p) cs. cs[unat c := Some (buffer @ p)]) (leaf_codes t) codes"
proof (induction t arbitrary: buffer codes)
  case (Leaf c f)
  show ?case by simp
next
  case (Internal f l r)
  have aux: "fold (\<lambda>(c, p) cs. cs[unat c := Some (buffer @ p)])
          (map (\<lambda>(c, p). (c, b # p)) xs) cs
        = fold (\<lambda>(c, p) cs. cs[unat c := Some ((buffer @ [b]) @ p)]) xs cs"
    for b xs and cs :: "string option list"
    by (induction xs arbitrary: cs) (auto simp: case_prod_unfold)
  show ?case
    by (simp only: generate_codes_recursive.simps Internal.IH leaf_codes.simps fold_append
          comp_apply aux)
qed

lemma length_fold_update [simp]:
  "length (fold (\<lambda>(c, p) cs. cs[k c := v p]) xs cs) = length cs"
  by (induction xs arbitrary: cs) (auto simp: case_prod_unfold)

lemma fold_update_other:
  "i \<notin> k ` fst ` set xs \<Longrightarrow> fold (\<lambda>(c, p) cs. cs[k c := v p]) xs cs ! i = cs ! i"
  by (induction xs arbitrary: cs) (auto simp: case_prod_unfold)

lemma fold_update_hit:
  assumes "distinct (map (k \<circ> fst) xs)" and "(c, p) \<in> set xs" and "k c < length cs"
  shows "fold (\<lambda>(c, p) cs. cs[k c := v p]) xs cs ! k c = v p"
  using assms
proof (induction xs arbitrary: cs)
  case Nil
  then show ?case by simp
next
  case (Cons x xs)
  obtain c' p' where x: "x = (c', p')" by (cases x)
  show ?case
  proof (cases "(c, p) \<in> set xs")
    case True
    with Cons show ?thesis by (simp add: x)
  next
    case False
    with Cons.prems have eq: "c' = c" "p' = p" by (auto simp: x)
    from Cons.prems(1) have "k c \<notin> k ` fst ` set xs" by (auto simp: x eq)
    from fold_update_other [OF this, of v "cs[k c := v p]"] Cons.prems(3)
    show ?thesis by (simp add: x eq)
  qed
qed

lemma distinct_unat_leaf_chars:
  "distinct (map (unat \<circ> fst) (leaf_codes t)) = distinct (leaf_chars t)"
  unfolding leaf_chars_def
  by (simp add: distinct_map [of unat] inj_on_def unsigned_word_eqI flip: map_map)

text \<open>The code table of a tree whose leaves carry distinct bytes.\<close>

lemma generate_codes_recursive_hit:
  assumes "distinct (leaf_chars t)" and "(c, p) \<in> set (leaf_codes t)" and "length codes = 256"
  shows "generate_codes_recursive t buffer codes ! unat c = Some (buffer @ p)"
proof -
  have "unat c < length codes" using unat_byte_less [of c] assms(3) by simp
  with fold_update_hit [of unat "leaf_codes t" c p codes "\<lambda>p. Some (buffer @ p)"] assms
  show ?thesis
    by (simp add: generate_codes_recursive_fold distinct_unat_leaf_chars)
qed

lemma generate_codes_recursive_other:
  assumes "c \<notin> set (leaf_chars t)"
  shows "generate_codes_recursive t buffer codes ! unat c = codes ! unat c"
proof -
  from assms have "unat c \<notin> unat ` fst ` set (leaf_codes t)"
    by (auto simp: leaf_chars_def dest!: unsigned_word_eqI intro: rev_image_eqI)
  from fold_update_other [OF this] show ?thesis
    by (simp add: generate_codes_recursive_fold)
qed

lemma leaf_codes_path_prefix:
  "(c, p) \<in> set (leaf_codes t) \<Longrightarrow> (d, q) \<in> set (leaf_codes t) \<Longrightarrow> prefix p q
     \<Longrightarrow> p = q \<and> c = d"
  by (induction t arbitrary: p q) auto

lemma leaf_codes_nonempty:
  "(c, p) \<in> set (leaf_codes (Internal f l r)) \<Longrightarrow> p \<noteq> []"
  by auto

lemma kraft_leaf_codes:
  "sum_list (map (\<lambda>(c, p). 1 / 2 ^ length p) (leaf_codes t)) = (1 :: real)"
proof (induction t)
  case (Leaf c f)
  show ?case by simp
next
  case (Internal f l r)
  have half: "sum_list (map ((\<lambda>(c, p). 1 / 2 ^ length p) \<circ> (\<lambda>(c, p). (c, b # p))) xs)
          = sum_list (map (\<lambda>(c, p). 1 / 2 ^ length p) xs) / (2 :: real)"
    for b :: char and xs :: "(byte \<times> string) list"
    by (induction xs) (auto simp: add_divide_distrib)
  show ?case
    by (simp add: half Internal.IH)
qed

subsection \<open>The code table of a table with at least two nonzero entries\<close>

lemma of_nat_byte_inj: "i < 256 \<Longrightarrow> j < 256 \<Longrightarrow> (of_nat i :: byte) = of_nat j \<Longrightarrow> i = j"
  by (metis unat_of_nat_byte)

lemma distinct_map_of_nat_nonzero_indices:
  "distinct (map (of_nat :: nat \<Rightarrow> byte) (nonzero_indices frequencies))"
  by (auto simp: distinct_map distinct_nonzero_indices set_nonzero_indices inj_on_def
        intro: of_nat_byte_inj)

lemma uniqueCount_two:
  assumes "i < 256" "j < 256" "i \<noteq> j" "frequencies ! i \<noteq> 0" "frequencies ! j \<noteq> 0"
  shows "uniqueCount frequencies > 1"
proof -
  from assms have "{i, j} \<subseteq> set (nonzero_indices frequencies)"
    by (simp add: set_nonzero_indices)
  then have "card {i, j} \<le> card (set (nonzero_indices frequencies))"
    by (intro card_mono) simp_all
  with assms(3) show ?thesis
    by (simp add: uniqueCount_eq distinct_card [OF distinct_nonzero_indices])
qed

lemma code_table_many:
  assumes t: "t = Internal f l r"
    and chars: "mset (leaf_chars t) = mset (map of_nat (nonzero_indices frequencies))"
  defines "codes \<equiv> generate_codes (Some t)"
  shows "\<forall>i<256. (codes ! i \<noteq> None) = (frequencies ! i \<noteq> 0)"
    and "\<forall>i<256. codes ! i \<noteq> Some []"
    and "\<forall>i<256. \<forall>j<256. \<forall>p q. i \<noteq> j \<and> codes ! i = Some p \<and> codes ! j = Some q
           \<longrightarrow> \<not> prefix p q"
    and "(\<Sum>i<256. code_weight (codes ! i)) = 1"
proof -
  let ?t = t
  let ?K = "leaf_codes ?t"
  have codes: "codes = generate_codes_recursive ?t [] (replicate 256 None)"
    by (simp add: codes_def generate_codes_def t)
  have dist: "distinct (leaf_chars ?t)"
    using distinct_map_of_nat_nonzero_indices [of frequencies]
    by (metis chars mset_eq_imp_distinct_iff)
  have set_chars: "set (leaf_chars ?t) = of_nat ` set (nonzero_indices frequencies)"
    using mset_eq_setD [OF chars] by simp
  have hit: "codes ! unat c = Some p" if "(c, p) \<in> set ?K" for c p
    using generate_codes_recursive_hit [OF dist that, of "replicate 256 None" "[]"]
    by (simp add: codes)
  have miss: "codes ! unat c = None" if "c \<notin> set (leaf_chars ?t)" for c
    using generate_codes_recursive_other [OF that, of "[]" "replicate 256 None"]
      unat_byte_less [of c]
    by (simp add: codes)
  have in_chars: "(of_nat i \<in> set (leaf_chars ?t)) = (frequencies ! i \<noteq> 0)" if "i < 256" for i
    using that by (auto simp: set_chars set_nonzero_indices dest: of_nat_byte_inj)
  have lookup: "codes ! i = Some p \<longleftrightarrow> (of_nat i, p) \<in> set ?K" if "i < 256" for i p
  proof (cases "(of_nat i :: byte) \<in> set (leaf_chars ?t)")
    case True
    then obtain q where q: "(of_nat i, q) \<in> set ?K"
      by (auto simp: leaf_chars_def)
    from hit [OF q] that have "codes ! i = Some q" by (simp add: unat_of_nat_byte)
    moreover have "p = q" if "(of_nat i, p) \<in> set ?K"
      using dist that q unfolding leaf_chars_def by (meson eq_key_imp_eq_value)
    ultimately show ?thesis using q by auto
  next
    case False
    from miss [OF this] that have "codes ! i = None" by (simp add: unat_of_nat_byte)
    with False show ?thesis by (force simp: leaf_chars_def)
  qed
  show "\<forall>i<256. (codes ! i \<noteq> None) = (frequencies ! i \<noteq> 0)"
  proof (intro allI impI)
    fix i :: nat assume i: "i < 256"
    have "(codes ! i \<noteq> None) = (\<exists>p. (of_nat i, p) \<in> set ?K)"
      using lookup [OF i] by auto
    also have "\<dots> = ((of_nat i :: byte) \<in> set (leaf_chars ?t))"
      by (force simp: leaf_chars_def)
    finally show "(codes ! i \<noteq> None) = (frequencies ! i \<noteq> 0)"
      by (simp only: in_chars [OF i])
  qed
  show "\<forall>i<256. codes ! i \<noteq> Some []"
    using lookup leaf_codes_nonempty [of _ "[]" f l r] unfolding t by blast
  show "\<forall>i<256. \<forall>j<256. \<forall>p q. i \<noteq> j \<and> codes ! i = Some p \<and> codes ! j = Some q
           \<longrightarrow> \<not> prefix p q"
  proof (intro allI impI notI)
    fix i j :: nat and p q
    assume i: "i < 256" and j: "j < 256"
      and a: "i \<noteq> j \<and> codes ! i = Some p \<and> codes ! j = Some q" and pre: "prefix p q"
    from a lookup [OF i] lookup [OF j]
    have "(of_nat i, p) \<in> set ?K" "(of_nat j, q) \<in> set ?K" by auto
    from leaf_codes_path_prefix [OF this pre] have "(of_nat i :: byte) = of_nat j" by simp
    with i j a show False by (auto dest: of_nat_byte_inj)
  qed
  show "(\<Sum>i<256. code_weight (codes ! i)) = 1"
  proof -
    have distK: "distinct ?K"
      using dist unfolding leaf_chars_def by (rule distinct_map [THEN iffD1, THEN conjunct1])
    have inj: "inj_on (unat \<circ> fst) (set ?K)"
      using dist unfolding distinct_unat_leaf_chars [symmetric]
      by (simp add: distinct_map)
    have sub: "(unat \<circ> fst) ` set ?K \<subseteq> {..<256}"
      using unat_byte_less by auto
    have zero: "code_weight (codes ! i) = 0" if "i \<in> {..<256} - (unat \<circ> fst) ` set ?K" for i
    proof -
      from that have i: "i < 256" and "i \<notin> (unat \<circ> fst) ` set ?K" by auto
      then have "(of_nat i :: byte) \<notin> set (leaf_chars ?t)"
        by (force simp: leaf_chars_def unat_of_nat_byte image_iff)
      from miss [OF this] i show ?thesis by (simp add: unat_of_nat_byte code_weight_def)
    qed
    have "(\<Sum>i<256. code_weight (codes ! i))
            = (\<Sum>i\<in>(unat \<circ> fst) ` set ?K. code_weight (codes ! i))"
      by (rule sum.mono_neutral_right) (use sub zero in auto)
    also have "\<dots> = (\<Sum>x\<in>set ?K. code_weight (codes ! unat (fst x)))"
      using sum.reindex [OF inj, of "\<lambda>i. code_weight (codes ! i)"] by (simp add: comp_def)
    also have "\<dots> = (\<Sum>x\<in>set ?K. case x of (c, p) \<Rightarrow> 1 / 2 ^ length p)"
      by (rule sum.cong) (auto simp: hit code_weight_def)
    also have "\<dots> = sum_list (map (\<lambda>(c, p). 1 / 2 ^ length p) ?K)"
      by (simp add: sum_list_distinct_conv_sum_set [OF distK])
    also have "\<dots> = 1" by (rule kraft_leaf_codes)
    finally show ?thesis .
  qed
qed

subsection \<open>The traversal buffer\<close>

text \<open>
  \<^verbatim>\<open>generate_codes\<close> keeps the path in \<^verbatim>\<open>char buffer[512]\<close> and writes \<^verbatim>\<open>buffer[depth]\<close> at a
  leaf. In a tree that \<^verbatim>\<open>build_huffman_tree\<close> returns every path is shorter than 256, so
  the writes stay inside the buffer.
\<close>

lemma leaf_codes_not_Nil: "leaf_codes t \<noteq> []"
  by (induction t) auto

lemma code_length_less_leaves:
  "(c, p) \<in> set (leaf_codes t) \<Longrightarrow> length p < length (leaf_codes t)"
proof (induction t arbitrary: p)
  case (Leaf c' f)
  then show ?case by simp
next
  case (Internal f l r)
  from leaf_codes_not_Nil [of l] leaf_codes_not_Nil [of r]
  obtain nl nr where "length (leaf_codes l) = Suc nl" "length (leaf_codes r) = Suc nr"
    by (metis length_Suc_conv list.exhaust)
  moreover from Internal.prems
  consider q where "p = CHR ''0'' # q" "(c, q) \<in> set (leaf_codes l)"
    | q where "p = CHR ''1'' # q" "(c, q) \<in> set (leaf_codes r)"
    by auto
  then have "length p \<le> length (leaf_codes l) \<or> length p \<le> length (leaf_codes r)"
  proof cases
    case 1
    with Internal.IH(1) [of q] show ?thesis by simp
  next
    case 2
    with Internal.IH(2) [of q] show ?thesis by simp
  qed
  ultimately show ?case by auto
qed

lemma build_huffman_tree_chars:
  assumes "build_huffman_tree frequencies = Inr (Some t)"
  shows "mset (leaf_chars t) = mset (map of_nat (nonzero_indices frequencies))"
proof -
  consider "uniqueCount frequencies = 0" | "uniqueCount frequencies = 1"
    | "uniqueCount frequencies > 1" by linarith
  then show ?thesis
  proof cases
    case 1
    with assms show ?thesis by (simp add: build_huffman_tree_None)
  next
    case 2
    then obtain i where "nonzero_indices frequencies = [i]"
      by (auto simp: uniqueCount_eq length_Suc_conv)
    with assms show ?thesis by (auto simp: build_huffman_tree_single)
  next
    case 3
    from build_huffman_tree_many [OF this] assms show ?thesis by auto
  qed
qed

lemma code_length_bound:
  assumes "build_huffman_tree frequencies = Inr (Some t)" and "(c, p) \<in> set (leaf_codes t)"
  shows "length p < 256"
proof -
  have "length (leaf_codes t) = size (mset (leaf_chars t))"
    by (simp add: leaf_chars_def)
  also have "\<dots> = length (nonzero_indices frequencies)"
    by (simp add: build_huffman_tree_chars [OF assms(1)])
  also have "\<dots> \<le> 256"
    using length_filter_le [of "\<lambda>i. frequencies ! i > 0" "[0..<256]"]
    by (simp add: nonzero_indices_def)
  finally show ?thesis
    using code_length_less_leaves [OF assms(2)] by simp
qed

subsection \<open>The decoding loop and the symbols of the stream\<close>

lemma unat_add_of_nat_u64:
  "unat (w :: u64) + n < 2 ^ 64 \<Longrightarrow> unat (w + of_nat n) = unat w + n"
  by (simp add: unat_word_ariths unat_of_nat)

text \<open>
  The loop writes the symbols of the stream, up to the count that is still missing; it
  stops short exactly when the stream holds fewer complete symbols than that.
\<close>

lemma decode_loop_exact:
  assumes "tree_root = Some R" and "R = Internal f0 l0 r0"
    and "node = Some (Internal f l r)" and "written \<le> total_chars"
  shows "decode_loop tree_root total_chars br node written out =
     (if unat total_chars - unat written \<le> length (decoded_symbols R (Internal f l r) (read_all br))
      then Inr (total_chars,
             out @ take (unat total_chars - unat written)
                     (decoded_symbols R (Internal f l r) (read_all br)))
      else Inr (written + of_nat (length (decoded_symbols R (Internal f l r) (read_all br))),
             out @ decoded_symbols R (Internal f l r) (read_all br)))"
  using assms
proof (induction tree_root total_chars br node written out arbitrary: f l r
         rule: decode_loop.induct)
  case (1 tree_root total_chars br node written out)
  show ?case
  proof (cases "written < total_chars")
    case False
    with "1.prems"(4) have "written = total_chars" by simp
    then show ?thesis
      by (subst decode_loop.simps) simp
  next
    case True
    note lt = True
    then have k: "0 < unat total_chars - unat written"
      by (simp add: word_less_nat_alt)
    show ?thesis
    proof (cases "bitreader_read_bit br")
      case None
      then have "read_all br = []" by (subst read_all.simps) simp
      with lt None k show ?thesis
        by (subst decode_loop.simps) simp
    next
      case (Some a)
      obtain bitv br' where a: "a = (bitv, br')" by (cases a)
      note rd = Some [unfolded a]
      have bits: "read_all br = bitv # read_all br'"
        using rd by (subst read_all.simps) simp
      let ?child = "if bitv = 0 then l else r"
      show ?thesis
      proof (cases ?child)
        case (Leaf c f')
        have step: "decode_loop tree_root total_chars br node written out
                      = decode_loop tree_root total_chars br' tree_root (written + 1) (out @ [c])"
          using lt rd Leaf "1.prems"(3) by (subst decode_loop.simps) simp
        from unat_inc_less [OF lt]
        have u: "unat (written + 1) = Suc (unat written)" and le: "written + 1 \<le> total_chars"
          by simp_all
        let ?rest = "decoded_symbols R R (read_all br')"
        have syms: "decoded_symbols R (Internal f l r) (read_all br) = c # ?rest"
          using Leaf by (simp add: bits)
        from "1.prems"(1,2) have root: "tree_root = Some (Internal f0 l0 r0)" by simp
        from "1.IH"(1) [OF lt rd refl "1.prems"(3) refl Leaf "1.prems"(1,2) root le]
        have ih: "decode_loop tree_root total_chars br' tree_root (written + 1) (out @ [c]) =
           (if unat total_chars - unat (written + 1) \<le> length ?rest
            then Inr (total_chars, (out @ [c]) @ take (unat total_chars - unat (written + 1)) ?rest)
            else Inr (written + 1 + of_nat (length ?rest), (out @ [c]) @ ?rest))"
          by (simp add: "1.prems"(2))
        obtain k' where k': "unat total_chars - unat written = Suc k'"
          using k by (cases "unat total_chars - unat written") auto
        then have k'': "unat total_chars - unat (written + 1) = k'"
          using u by simp
        show ?thesis
          unfolding step ih syms k' k''
          by (simp add: add.assoc)
      next
        case (Internal f' l' r')
        have step: "decode_loop tree_root total_chars br node written out
                      = decode_loop tree_root total_chars br' (Some (Internal f' l' r')) written out"
          using lt rd Internal "1.prems"(3) by (subst decode_loop.simps) simp
        have syms: "decoded_symbols R (Internal f l r) (read_all br)
                      = decoded_symbols R (Internal f' l' r') (read_all br')"
          using Internal by (simp add: bits)
        from "1.IH"(2) [OF lt rd refl "1.prems"(3) refl Internal "1.prems"(1,2) refl "1.prems"(4)]
        show ?thesis
          unfolding step syms .
      qed
    qed
  qed
qed

lemma decompress_file_exact:
  assumes "2056 \<le> length blob" and "uniqueCount (header_frequencies blob) > 1"
  shows "\<exists>f l r. build_huffman_tree (header_frequencies blob) = Inr (Some (Internal f l r))
     \<and> decompress_file blob =
         (if unat (header_total blob)
               \<le> length (decoded_symbols (Internal f l r) (Internal f l r)
                            (read_all (bitreader_create (drop 2056 blob))))
          then Inr (take (unat (header_total blob))
                      (decoded_symbols (Internal f l r) (Internal f l r)
                         (read_all (bitreader_create (drop 2056 blob)))))
          else Inl (UnexpectedEndOfStreamError
                      (decoded_symbols (Internal f l r) (Internal f l r)
                         (read_all (bitreader_create (drop 2056 blob))))))"
proof -
  from build_huffman_tree_many [OF assms(2)] obtain f l r
    where b: "build_huffman_tree (header_frequencies blob) = Inr (Some (Internal f l r))"
    by blast
  let ?T = "header_total blob"
  let ?syms = "decoded_symbols (Internal f l r) (Internal f l r)
                 (read_all (bitreader_create (drop 2056 blob)))"
  have d: "decode_loop (Some (Internal f l r)) ?T (bitreader_create (drop 2056 blob))
             (Some (Internal f l r)) 0 [] =
           (if unat ?T \<le> length ?syms then Inr (?T, take (unat ?T) ?syms)
            else Inr (of_nat (length ?syms), ?syms))"
    using decode_loop_exact [where tree_root = "Some (Internal f l r)" and R = "Internal f l r"
        and node = "Some (Internal f l r)" and written = 0 and total_chars = ?T
        and br = "bitreader_create (drop 2056 blob)" and out = "[]", OF refl refl refl]
    by simp
  have ne: "(of_nat (length ?syms) :: u64) \<noteq> ?T" if "\<not> unat ?T \<le> length ?syms"
  proof
    assume e: "(of_nat (length ?syms) :: u64) = ?T"
    have "unat ?T < 2 ^ 64" using unsigned_less [of ?T, where ?'a = nat] by simp
    with that have "length ?syms < 2 ^ 64" by simp
    then have "unat (of_nat (length ?syms) :: u64) = length ?syms"
      by (rule unat_of_nat_u64)
    with e that show False by simp
  qed
  have "decompress_file blob =
         (if unat ?T \<le> length ?syms then Inr (take (unat ?T) ?syms)
          else Inl (UnexpectedEndOfStreamError ?syms))"
    using assms ne by (simp add: decompress_file_long b d)
  with b show ?thesis by blast
qed

subsection \<open>A table of three bytes and a stream cut inside a symbol\<close>

lemma nonzero_indices_abc:
  "nonzero_indices ((replicate 256 0)[97 := 1, 98 := 1, 99 := 1]) = [97, 98, 99]"
  by (rule nonzero_indices_eqI) (auto simp: nth_list_update)

lemma insert_leaves_abc:
  "insert_leaves ((replicate 256 0)[97 := 1, 98 := 1, 99 := 1])
     = [Leaf 97 1, Leaf 98 1, Leaf 99 1]"
  by (simp add: insert_leaves_eq nonzero_indices_abc heap_insert_def heapify_up.simps)

lemma merge_loop_abc:
  "merge_loop [Leaf 97 1, Leaf 98 1, Leaf 99 1]
     = Some [Internal 3 (Leaf 98 1) (Internal 2 (Leaf 97 1) (Leaf 99 1))]"
  by code_simp

lemma build_huffman_tree_abc:
  "build_huffman_tree ((replicate 256 0)[97 := 1, 98 := 1, 99 := 1])
     = Inr (Some (Internal 3 (Leaf 98 1) (Internal 2 (Leaf 97 1) (Leaf 99 1))))"
  by (simp add: build_huffman_tree_def uniqueCount_eq nonzero_indices_abc insert_leaves_abc
        merge_loop_abc heap_extract_min_def)

lemma read_all_254: "read_all (bitreader_create [254]) = [0, 1, 1, 1, 1, 1, 1, 1]"
  by (simp add: read_all.simps bitreader_create_def bitreader_read_bit_def bitreader_fill_def)

lemma decoded_symbols_254:
  "decoded_symbols (Internal 3 (Leaf 98 1) (Internal 2 (Leaf 97 1) (Leaf 99 1)))
     (Internal 3 (Leaf 98 1) (Internal 2 (Leaf 97 1) (Leaf 99 1))) [0, 1, 1, 1, 1, 1, 1, 1]
     = [98, 99, 99, 99]"
  by simp

section \<open>The claims\<close>

text \<open>
  C4. Empty input: \<^verbatim>\<open>compress_file\<close> applied to the empty byte sequence fails with
  \<open>EmptyInputError\<close> and produces no blob, in both source files; whenever it produces a
  blob the input was not empty.
\<close>

theorem compress_empty_input:
  "compress_file [] = Inl EmptyInputError \<and> compress_file2 [] = Inl EmptyInputError
   \<and> (\<forall>blob. compress_file inp = Inr blob \<longrightarrow> inp \<noteq> [])
   \<and> (\<forall>blob. compress_file2 inp = Inr blob \<longrightarrow> inp \<noteq> [])"
  by (auto simp: compress_file_Nil compress_file2_Nil)

theorem compress_empty_input_witness:
  "compress_file [97, 98]
     = Inr (u64_bytes 2 @ write_u64_array ((replicate 256 0)[97 := 1, 98 := 1]) @ [64])
   \<and> compress_file2 [97, 98]
     = Inr (u64_bytes 2 @ write_u64_array ((replicate 256 0)[97 := 1, 98 := 1]) @ [64])
   \<and> [97, 98 :: byte] \<noteq> []"
  using compress_empty_input [of "[97, 98]"] compress_file_ab
    compress_file2_eq [of "[97, 98]"]
  by simp

text \<open>
  C9. A blob that is a 2056-byte header of zeros (total count 0, all 256 frequencies 0),
  followed by any bytes, decompresses successfully to the empty output in both source
  files, although no input makes \<^verbatim>\<open>compress_file\<close> produce such a blob.
\<close>

theorem decompress_zero_header:
  "decompress_file (replicate 2056 0 @ rest) = Inr []
   \<and> decompress_file2 (replicate 2056 0 @ rest) = Inr []
   \<and> compress_file inp \<noteq> Inr (replicate 2056 0 @ rest)
   \<and> compress_file2 inp \<noteq> Inr (replicate 2056 0 @ rest)"
  using compress_not_zero [of inp rest] compress_file2_Inr [of inp "replicate 2056 0 @ rest"]
  by (auto simp: decompress_zero decompress_file2_eq)

text \<open>
  C1. Round trip. The claim is that decompressing the blob of a nonempty input gives the
  input back. On the two-byte input \<open>ab\<close> (97, 98) the compressor gives a the code 0 and b
  the code 1 and writes the single bitstream byte 64 (binary 01000000, first bit in the
  most significant position); the decompressor reads that byte from its least significant
  bit, decodes 0, 0 and reports success with the output \<open>aa\<close>.
\<close>

theorem roundtrip_ab:
  "compress_file [97, 98]
     = Inr (u64_bytes 2 @ write_u64_array ((replicate 256 0)[97 := 1, 98 := 1]) @ [64])
   \<and> decompress_file (u64_bytes 2 @ write_u64_array ((replicate 256 0)[97 := 1, 98 := 1]) @ [64])
     = Inr [97, 97]"
  by (simp add: compress_file_ab decompress_file_ab)

lemma bitwriter_first_bit:
  "bitwriter_flush (bitwriter_write_bit (bitwriter_create fp) bitv)
     = fp @ [word_of_int (push_bit 7 (bitv AND 1))]"
  by (simp add: bitwriter_flush_def bitwriter_write_bit_def bitwriter_create_def)

lemma bitreader_first_bit:
  "map_option fst (bitreader_read_bit (bitreader_create (b # rest))) = Some (uint b AND 1)"
  by (simp add: bitreader_read_bit_def bitreader_fill_def bitreader_create_def)

text \<open>
  C8. Bit-level round trip. The claim is that the reader yields the written bits in the
  order they were written. Writing the single bit 1 and flushing gives the byte 128
  (the bit in the most significant position, the rest zero, \<open>bitwriter_first_bit\<close>); the
  first bit the reader yields from that byte is 0, the least significant one
  (\<open>bitreader_first_bit\<close>). The reader reports the end of the stream only with an empty
  buffer and no byte left.
\<close>

theorem bit_roundtrip_one:
  "bitwriter_flush (bitwriter_write_bit (bitwriter_create []) 1) = [128]
   \<and> map_option fst (bitreader_read_bit (bitreader_create [128])) = Some 0
   \<and> (bitreader_read_bit br = None
        \<longleftrightarrow> br_bit_count br = 0 \<and> br_fp br = [])"
  by (auto simp: bitwriter_flush_def bitwriter_write_bit_def bitwriter_create_def
        bitreader_read_bit_def bitreader_fill_def bitreader_create_def Let_def
        split: list.splits)

lemma nonzero_indices_only:
  assumes "k < 256" and "frequencies ! k \<noteq> 0" and "\<forall>i<256. i \<noteq> k \<longrightarrow> frequencies ! i = 0"
  shows "nonzero_indices frequencies = [k]"
  using assms by (intro nonzero_indices_eqI) auto

text \<open>
  C7. Prefix-freeness and Kraft equality: for every frequency table with at least two
  nonzero entries the tree is built, and the code table generated from it gives a code to
  exactly the bytes with a nonzero frequency, no code is empty, no code of a byte is a
  prefix of the code of another byte, and the sum of \<open>2 ^ - length code\<close> over the
  assigned codes is 1.
\<close>

theorem codebook_prefix_free_kraft:
  assumes "length frequencies = 256"
    and "i < 256" and "j < 256" and "i \<noteq> j"
    and "frequencies ! i \<noteq> 0" and "frequencies ! j \<noteq> 0"
  shows "\<exists>t. build_huffman_tree frequencies = Inr (Some t)
           \<and> (\<forall>k<256. (generate_codes (Some t) ! k \<noteq> None) = (frequencies ! k \<noteq> 0))
           \<and> (\<forall>k<256. generate_codes (Some t) ! k \<noteq> Some [])
           \<and> (\<forall>k<256. \<forall>m<256. \<forall>p q.
                 k \<noteq> m \<and> generate_codes (Some t) ! k = Some p
                   \<and> generate_codes (Some t) ! m = Some q \<longrightarrow> \<not> prefix p q)
           \<and> (\<Sum>k<256. code_weight (generate_codes (Some t) ! k)) = 1"
proof -
  from uniqueCount_two [OF assms(2-6)] have "uniqueCount frequencies > 1" .
  from build_huffman_tree_many [OF this] obtain f l r
    where b: "build_huffman_tree frequencies = Inr (Some (Internal f l r))"
      and ch: "mset (leaf_chars (Internal f l r)) = mset (map of_nat (nonzero_indices frequencies))"
    by blast
  from code_table_many [OF refl ch] b show ?thesis
    by blast
qed

theorem codebook_prefix_free_kraft_witness:
  "build_huffman_tree ((replicate 256 0)[97 := 1, 98 := 1])
     = Inr (Some (Internal 2 (Leaf 97 1) (Leaf 98 1)))
   \<and> generate_codes (Some (Internal 2 (Leaf 97 1) (Leaf 98 1))) ! 97 = Some ''0''
   \<and> generate_codes (Some (Internal 2 (Leaf 97 1) (Leaf 98 1))) ! 98 = Some ''1''
   \<and> \<not> prefix ''0'' ''1''
   \<and> (\<Sum>k<256. code_weight (generate_codes (Some (Internal 2 (Leaf 97 1) (Leaf 98 1))) ! k)) = 1"
  using codebook_prefix_free_kraft [of "(replicate 256 0)[97 := 1, 98 := 1]" 97 98]
  by (simp add: build_huffman_tree_ab generate_codes_ab)

text \<open>
  C5. Single-symbol case: when exactly one byte \<open>v\<close> has a nonzero frequency, the tree is
  the leaf of \<open>v\<close>, code generation gives \<open>v\<close> the code \<open>0\<close> and no other byte a code, and
  \<^verbatim>\<open>decompress_file\<close> on any blob with this table in its header writes \<open>v\<close> as many times
  as the header's total count says, whatever bytes follow the header. Both source files.
\<close>

theorem single_symbol_case:
  assumes "length frequencies = 256"
    and "frequencies ! unat v \<noteq> 0"
    and "\<forall>i<256. i \<noteq> unat v \<longrightarrow> frequencies ! i = 0"
  shows "build_huffman_tree frequencies = Inr (Some (Leaf v (frequencies ! unat v)))
       \<and> generate_codes (Some (Leaf v (frequencies ! unat v)))
           = (replicate 256 None)[unat v := Some ''0'']
       \<and> build_huffman_tree2 frequencies = Inr (Some (Leaf v (frequencies ! unat v)))
       \<and> generate_codes2 (Some (Leaf v (frequencies ! unat v)))
           = (replicate 256 None)[unat v := Some ''0'']
       \<and> (\<forall>blob. 2056 \<le> length blob \<and> header_frequencies blob = frequencies
             \<longrightarrow> decompress_file blob = Inr (replicate (unat (header_total blob)) v)
               \<and> decompress_file2 blob = Inr (replicate (unat (header_total blob)) v))"
proof -
  have nz: "nonzero_indices frequencies = [unat v]"
    using assms(2,3) unat_byte_less [of v] by (intro nonzero_indices_only) auto
  from build_huffman_tree_single [OF nz]
  have b: "build_huffman_tree frequencies = Inr (Some (Leaf v (frequencies ! unat v)))"
    by simp
  have d: "decompress_file blob = Inr (replicate (unat (header_total blob)) v)"
    if "2056 \<le> length blob" and "header_frequencies blob = frequencies" for blob
    using decompress_file_single [of blob "unat v"] that nz by simp
  from b d show ?thesis
    by (simp add: build_huffman_tree2_eq generate_codes2_eq decompress_file2_eq
          generate_codes_def)
qed

theorem single_symbol_case_witness:
  "build_huffman_tree ((replicate 256 0)[65 := 4]) = Inr (Some (Leaf 65 4))
   \<and> generate_codes (Some (Leaf 65 4)) = (replicate 256 None)[65 := Some ''0'']
   \<and> decompress_file (u64_bytes 4 @ write_u64_array ((replicate 256 0)[65 := 4]) @ [255, 1])
       = Inr [65, 65, 65, 65]"
proof -
  let ?f = "(replicate 256 0)[65 := 4] :: u64 list"
  let ?blob = "u64_bytes 4 @ write_u64_array ?f @ [255, 1]"
  have 1: "length ?f = 256" by simp
  have 2: "?f ! unat (65 :: byte) \<noteq> 0" by simp
  have 3: "\<forall>i<256. i \<noteq> unat (65 :: byte) \<longrightarrow> ?f ! i = 0" by simp
  have 4: "2056 \<le> length ?blob" by simp
  have 5: "header_frequencies ?blob = ?f" "header_total ?blob = 4"
    by (simp_all add: header_fields_written)
  have "unat (4 :: u64) = 4" by simp
  moreover have "replicate 4 (65 :: byte) = [65, 65, 65, 65]"
    by (simp add: numeral_eq_Suc)
  ultimately have 6: "replicate (unat (4 :: u64)) (65 :: byte) = [65, 65, 65, 65]"
    by (simp only:)
  from single_symbol_case [OF 1 2 3] 4 5 6 show ?thesis
    by simp
qed

text \<open>
  C2. Tree construction is reproducible: for every frequency table with a nonzero entry
  the builder returns a tree, the builder run on the table read back from a header that
  holds this table (the decoder's run) returns the same tree, and so does the builder of
  the second source file.
\<close>

theorem tree_reproducible:
  assumes "length frequencies = 256" and "i < 256" and "frequencies ! i \<noteq> 0"
  shows "\<exists>t. build_huffman_tree frequencies = Inr (Some t)
           \<and> build_huffman_tree
               (header_frequencies (u64_bytes total_chars @ write_u64_array frequencies @ bitstream))
               = Inr (Some t)
           \<and> build_huffman_tree2 frequencies = Inr (Some t)
           \<and> build_huffman_tree2
               (header_frequencies (u64_bytes total_chars @ write_u64_array frequencies @ bitstream))
               = Inr (Some t)"
proof -
  from assms(2,3) have "uniqueCount frequencies > 0"
    by (auto simp: uniqueCount_pos_iff)
  from build_huffman_tree_Some [OF this] obtain t
    where "build_huffman_tree frequencies = Inr (Some t)" by blast
  then show ?thesis
    by (simp add: header_fields_written [OF assms(1)] build_huffman_tree2_eq)
qed

theorem tree_reproducible_witness:
  "build_huffman_tree
     (header_frequencies (u64_bytes 2 @ write_u64_array ((replicate 256 0)[97 := 1, 98 := 1]) @ [64]))
     = Inr (Some (Internal 2 (Leaf 97 1) (Leaf 98 1)))
   \<and> build_huffman_tree2 ((replicate 256 0)[97 := 1, 98 := 1])
     = Inr (Some (Internal 2 (Leaf 97 1) (Leaf 98 1)))"
  using tree_reproducible [of "(replicate 256 0)[97 := 1, 98 := 1]" 97 2 "[64]"]
  by (simp add: build_huffman_tree_ab)

text \<open>
  C3. Truncation handling. A blob shorter than the 2056-byte header fails with
  \<open>TruncatedHeaderError\<close>. \<^verbatim>\<open>decompress_file\<close> is a total function (its loops are the
  terminating recursions \<open>decode_loop\<close> and \<open>merge_loop\<close>), it never reads through NULL,
  and it reports success only with an output of exactly the header's total count. With
  at least two nonzero frequencies the result is fixed by the symbols that the bits of
  the stream hold for the rebuilt tree: when they are fewer than the total count, the
  stream ends before that many symbols are decoded and the result is
  \<open>UnexpectedEndOfStreamError\<close> with exactly those symbols written, fewer than the count;
  otherwise it is success with the first total-count symbols. In particular it fails
  whenever the stream holds fewer bits than the total count.
\<close>

theorem truncation_handling:
  "(length blob < 2056 \<longrightarrow> decompress_file blob = Inl TruncatedHeaderError)
   \<and> decompress_file blob \<noteq> Inl NullDereference
   \<and> (\<forall>out. decompress_file blob = Inr out \<longrightarrow> length out = unat (header_total blob))
   \<and> (2056 \<le> length blob \<and> i < 256 \<and> j < 256 \<and> i \<noteq> j
        \<and> header_frequencies blob ! i \<noteq> 0 \<and> header_frequencies blob ! j \<noteq> 0
      \<longrightarrow> (\<exists>out. decompress_file blob = Inr out)
          \<or> (\<exists>partial. decompress_file blob = Inl (UnexpectedEndOfStreamError partial)
                \<and> length partial < unat (header_total blob)))
   \<and> (2056 \<le> length blob \<and> i < 256 \<and> j < 256 \<and> i \<noteq> j
        \<and> header_frequencies blob ! i \<noteq> 0 \<and> header_frequencies blob ! j \<noteq> 0
        \<and> 8 * (length blob - 2056) < unat (header_total blob)
      \<longrightarrow> (\<exists>partial. decompress_file blob = Inl (UnexpectedEndOfStreamError partial)
                \<and> length partial < unat (header_total blob)))
   \<and> (2056 \<le> length blob \<and> i < 256 \<and> j < 256 \<and> i \<noteq> j
        \<and> header_frequencies blob ! i \<noteq> 0 \<and> header_frequencies blob ! j \<noteq> 0
      \<longrightarrow> (\<exists>t. build_huffman_tree (header_frequencies blob) = Inr (Some t)
            \<and> decompress_file blob =
                (if unat (header_total blob)
                      \<le> length (decoded_symbols t t (read_all (bitreader_create (drop 2056 blob))))
                 then Inr (take (unat (header_total blob))
                             (decoded_symbols t t (read_all (bitreader_create (drop 2056 blob)))))
                 else Inl (UnexpectedEndOfStreamError
                             (decoded_symbols t t (read_all (bitreader_create (drop 2056 blob))))))))"
proof (cases "length blob < 2056")
  case True
  then show ?thesis by (simp add: decompress_file_short)
next
  case False
  then have long: "2056 \<le> length blob" by simp
  let ?F = "header_frequencies blob" and ?T = "header_total blob"
  have many: "\<exists>w out. w \<le> ?T \<and> length out = unat w \<and> unat w \<le> 8 * (length blob - 2056)
      \<and> decompress_file blob = (if w = ?T then Inr out else Inl (UnexpectedEndOfStreamError out))"
    if "uniqueCount ?F > 1"
    using decompress_file_many [OF long that] .
  have short_out: "length out < unat ?T" if "w \<le> ?T" "w \<noteq> ?T" "length out = unat w"
    for w and out :: "byte list"
    using that by (simp add: word_le_nat_alt word_unat_eq_iff)
  consider "uniqueCount ?F = 0" | "uniqueCount ?F = 1" | "uniqueCount ?F > 1" by linarith
  then have general: "decompress_file blob \<noteq> Inl NullDereference
      \<and> (\<forall>out. decompress_file blob = Inr out \<longrightarrow> length out = unat ?T)"
  proof cases
    case 1
    from decompress_file_empty_tree [OF long this] show ?thesis
      by (auto simp: word_greater_zero_iff)
  next
    case 2
    then obtain k where "nonzero_indices ?F = [k]"
      by (auto simp: uniqueCount_eq length_Suc_conv)
    from decompress_file_single [OF long this] show ?thesis by simp
  next
    case 3
    from many [OF this] show ?thesis by (auto split: if_splits)
  qed
  have two: "(\<exists>out. decompress_file blob = Inr out)
          \<or> (\<exists>partial. decompress_file blob = Inl (UnexpectedEndOfStreamError partial)
                \<and> length partial < unat ?T)"
       "8 * (length blob - 2056) < unat ?T
          \<longrightarrow> (\<exists>partial. decompress_file blob = Inl (UnexpectedEndOfStreamError partial)
                \<and> length partial < unat ?T)"
    if "i < 256" "j < 256" "i \<noteq> j" "?F ! i \<noteq> 0" "?F ! j \<noteq> 0"
  proof -
    from uniqueCount_two [OF that] have "uniqueCount ?F > 1" .
    from many [OF this] obtain w out where w: "w \<le> ?T" "length out = unat w"
      "unat w \<le> 8 * (length blob - 2056)"
      "decompress_file blob = (if w = ?T then Inr out else Inl (UnexpectedEndOfStreamError out))"
      by blast
    show "(\<exists>out. decompress_file blob = Inr out)
          \<or> (\<exists>partial. decompress_file blob = Inl (UnexpectedEndOfStreamError partial)
                \<and> length partial < unat ?T)"
      using w short_out [of w out] by (cases "w = ?T") auto
    show "8 * (length blob - 2056) < unat ?T
          \<longrightarrow> (\<exists>partial. decompress_file blob = Inl (UnexpectedEndOfStreamError partial)
                \<and> length partial < unat ?T)"
      using w short_out [of w out] by (cases "w = ?T") auto
  qed
  have exact: "\<exists>t. build_huffman_tree ?F = Inr (Some t)
            \<and> decompress_file blob =
                (if unat ?T \<le> length (decoded_symbols t t (read_all (bitreader_create (drop 2056 blob))))
                 then Inr (take (unat ?T)
                             (decoded_symbols t t (read_all (bitreader_create (drop 2056 blob)))))
                 else Inl (UnexpectedEndOfStreamError
                             (decoded_symbols t t (read_all (bitreader_create (drop 2056 blob))))))"
    if "i < 256" "j < 256" "i \<noteq> j" "?F ! i \<noteq> 0" "?F ! j \<noteq> 0"
  proof -
    from uniqueCount_two [OF that] have "uniqueCount ?F > 1" .
    from decompress_file_exact [OF long this] show ?thesis by blast
  qed
  from general two exact False show ?thesis by blast
qed

theorem truncation_handling_witness:
  "decompress_file [1, 2, 3] = Inl TruncatedHeaderError
   \<and> (\<exists>partial. decompress_file (u64_bytes 2 @ write_u64_array ((replicate 256 0)[97 := 1, 98 := 1]) @ [])
          = Inl (UnexpectedEndOfStreamError partial) \<and> length partial < 2)
   \<and> decompress_file (u64_bytes 2 @ write_u64_array ((replicate 256 0)[97 := 1, 98 := 1]) @ [64])
        = Inr [97, 97]
   \<and> length [97, 97 :: byte] = unat (2 :: u64)
   \<and> decompress_file
         (u64_bytes 5 @ write_u64_array ((replicate 256 0)[97 := 1, 98 := 1, 99 := 1]) @ [254])
        = Inl (UnexpectedEndOfStreamError [98, 99, 99, 99])"
proof -
  let ?f = "(replicate 256 0)[97 := 1, 98 := 1] :: u64 list"
  let ?cut = "u64_bytes 2 @ write_u64_array ?f @ []"
  let ?full = "u64_bytes 2 @ write_u64_array ?f @ [64]"
  let ?g = "(replicate 256 0)[97 := 1, 98 := 1, 99 := 1] :: u64 list"
  let ?mid = "u64_bytes 5 @ write_u64_array ?g @ [254]"
  have f: "length ?f = 256" by simp
  have g: "length ?g = 256" by simp
  have cut: "header_total ?cut = 2" "header_frequencies ?cut = ?f" "length ?cut = 2056"
    by (simp_all only: header_fields_written [OF f]) simp
  have full: "header_total ?full = 2"
    by (simp only: header_fields_written [OF f])
  have mid: "header_total ?mid = 5" "header_frequencies ?mid = ?g" "drop 2056 ?mid = [254]"
    by (simp_all only: header_fields_written [OF g])
  have midlen: "2056 \<le> length ?mid" by simp
  from truncation_handling [of "[1, 2, 3]"]
  have 1: "decompress_file [1, 2, 3] = Inl TruncatedHeaderError" by simp
  from truncation_handling [of ?cut 97 98]
  have 2: "\<exists>partial. decompress_file ?cut = Inl (UnexpectedEndOfStreamError partial)
             \<and> length partial < 2"
    unfolding cut by simp
  from truncation_handling [of ?full] decompress_file_ab
  have 3: "length [97, 97 :: byte] = unat (header_total ?full)" by simp
  from truncation_handling [of ?mid 97 98] midlen
  have 4: "decompress_file ?mid = Inl (UnexpectedEndOfStreamError [98, 99, 99, 99])"
    unfolding mid build_huffman_tree_abc
    by (simp add: read_all_254)
  from 1 2 3 4 decompress_file_ab show ?thesis
    unfolding full by simp
qed

text \<open>
  C6. Header integrity. An input is a file that is read twice, so it is shorter than
  \<open>2 ^ 64\<close> bytes, the range of the 64-bit counters. For every blob produced by
  \<^verbatim>\<open>compress_file\<close> from such an input the header is complete, the sum of the 256 counters
  of the header is the total count of the header, which is the length of the input, and
  the counter of each byte is the number of its occurrences in the input. The first
  four conjuncts say the same in 64-bit arithmetic, where no bound on the length is
  needed.
\<close>

theorem header_integrity:
  assumes "compress_file inp = Inr blob"
  shows "2056 \<le> length blob
       \<and> sum_list (header_frequencies blob) = header_total blob
       \<and> header_total blob = of_nat (length inp)
       \<and> (\<forall>v. header_frequencies blob ! unat (v :: byte) = of_nat (count_list inp v))
       \<and> (length inp < 2 ^ 64 \<longrightarrow>
            unat (header_total blob) = length inp
          \<and> sum_list (map unat (header_frequencies blob)) = unat (header_total blob)
          \<and> (\<forall>v. unat (header_frequencies blob ! unat (v :: byte)) = count_list inp v))"
proof -
  let ?f = "fst (count_frequencies inp)" and ?t = "snd (count_frequencies inp)"
  from compress_file_shape [OF assms] obtain bitstream
    where blob: "blob = u64_bytes ?t @ write_u64_array ?f @ bitstream" by blast
  have len: "length ?f = 256" by simp
  have h: "header_total blob = ?t" "header_frequencies blob = ?f"
    unfolding blob by (simp_all only: header_fields_written [OF len])
  have "2056 \<le> length blob" unfolding blob by simp
  moreover have "sum_list ?f = ?t" by (rule sum_list_count_frequencies)
  moreover have "?t = of_nat (length inp)" by (rule count_frequencies_total)
  moreover have "\<forall>v :: byte. ?f ! unat v = of_nat (count_list inp v)"
    by (simp add: count_frequencies_byte)
  moreover have "unat ?t = length inp \<and> sum_list (map unat ?f) = unat ?t
      \<and> (\<forall>v :: byte. unat (?f ! unat v) = count_list inp v)"
    if "length inp < 2 ^ 64"
    using unat_count_frequencies [OF that] by simp
  ultimately show ?thesis
    unfolding h by blast
qed

theorem header_integrity_witness:
  "sum_list (map unat (header_frequencies
      (u64_bytes 2 @ write_u64_array ((replicate 256 0)[97 := 1, 98 := 1]) @ [64])))
     = unat (header_total (u64_bytes 2 @ write_u64_array ((replicate 256 0)[97 := 1, 98 := 1]) @ [64]))
   \<and> unat (header_total (u64_bytes 2 @ write_u64_array ((replicate 256 0)[97 := 1, 98 := 1]) @ [64]))
       = length [97, 98 :: byte]
   \<and> unat (header_frequencies
        (u64_bytes 2 @ write_u64_array ((replicate 256 0)[97 := 1, 98 := 1]) @ [64]) ! unat (97 :: byte))
       = count_list [97, 98] (97 :: byte)"
proof -
  have "length [97, 98 :: byte] < 2 ^ 64" by simp
  with header_integrity [OF compress_file_ab] show ?thesis by blast
qed

text \<open>
  C10. The two source files. The two \<^verbatim>\<open>decompress_file\<close> functions return the same result
  on every blob: the same output bytes, the same success or failure. The two
  \<^verbatim>\<open>compress_file\<close> functions return the same result, the same blob or the same failure, on
  every input; an input is a file that is read twice, shorter than \<open>2 ^ 64\<close> bytes. The
  last conjunct says where the one difference of the two functions lies: huffman2.c tests
  the 64-bit total counter against 0 before it builds the tree.
\<close>

theorem codecs_agree:
  "decompress_file2 blob = decompress_file blob
   \<and> (length inp < 2 ^ 64 \<longrightarrow> compress_file2 inp = compress_file inp)
   \<and> compress_file2 inp
       = (if (of_nat (length inp) :: u64) = 0 then Inl EmptyInputError else compress_file inp)"
proof -
  have 1: "decompress_file2 blob = decompress_file blob"
    by (rule decompress_file2_eq)
  have 2: "length inp < 2 ^ 64 \<longrightarrow> compress_file2 inp = compress_file inp"
    using compress_file2_eq by blast
  have 3: "compress_file2 inp
       = (if (of_nat (length inp) :: u64) = 0 then Inl EmptyInputError else compress_file inp)"
    by (simp only: compress_file2_char count_frequencies_total)
  from 1 2 3 show ?thesis by blast
qed

theorem codecs_agree_witness:
  "compress_file2 [97, 98] = compress_file [97, 98]
   \<and> decompress_file2 [1, 2, 3] = decompress_file [1, 2, 3]"
  using codecs_agree [of "[1, 2, 3]" "[97, 98]"] by simp

end
